theory Spec2Isabelle
  imports Complex_Main "HOL-Library.AList"
begin

section \<open>Python values shared by all modules\<close>

text \<open>
  The repository is a suite of SAT solvers written in Python. Python integers are
  unbounded, so they are modelled as \<open>int\<close>. A \<open>dict\<close> is an association list
  in insertion order (\<open>AList.update\<close> keeps the position of an existing key and appends a
  new one, as Python does), read through \<open>map_of\<close>. Exceptions are values of
  \<open>py_error\<close>; a function that can raise returns \<open>py_error + 'a\<close>.
\<close>

datatype py_error = IndexError | KeyError | ValueError | OverflowError

type_synonym clause = "int list"
type_synonym formula = "clause list"
type_synonym assignment = "(int \<times> bool) list"

text \<open>
  Binary floating point is not modelled bit by bit. Every float operation the solvers use
  is a field of \<open>float_ops\<close>, over any linearly ordered type of scores; the theorems
  below hold for every such structure (IEEE doubles without NaN are one), and concrete
  runs are evaluated with the exact rational instance \<open>exact_ops\<close>.
\<close>

record 'f float_ops =
  f_zero :: 'f
  f_one :: 'f
  f_decay :: 'f
  f_add :: "'f \<Rightarrow> 'f \<Rightarrow> 'f"
  f_mul :: "'f \<Rightarrow> 'f \<Rightarrow> 'f"
  f_pow2neg :: "nat \<Rightarrow> 'f"
  f_pow :: "'f \<Rightarrow> nat \<Rightarrow> py_error + 'f"
  f_grow :: "int \<Rightarrow> int"

definition exact_ops :: "rat float_ops" where
  "exact_ops = \<lparr> f_zero = 0, f_one = 1, f_decay = 95 / 100,
     f_add = (\<lambda>x y. x + y), f_mul = (\<lambda>x y. x * y),
     f_pow2neg = (\<lambda>k. 1 / 2 ^ k), f_pow = (\<lambda>x k. Inr (x ^ k)),
     f_grow = (\<lambda>n. (n * 3) div 2) \<rparr>"

section \<open>utils/cnf\_parser.py\<close>

record cnf_formula =
  num_vars :: int
  num_clauses :: int
  clauses :: formula

text \<open>The ASCII characters \<open>str.strip\<close> and \<open>str.split\<close> treat as whitespace.\<close>

definition is_space :: "char \<Rightarrow> bool" where
  "is_space c = (c \<in> set [CHR 0x20, CHR 0x09, CHR 0x0A, CHR 0x0B, CHR 0x0C, CHR 0x0D,
                          CHR 0x1C, CHR 0x1D, CHR 0x1E, CHR 0x1F])"

definition is_digit :: "char \<Rightarrow> bool" where
  "is_digit c = (c \<in> set ''0123456789'')"

definition digit_val :: "char \<Rightarrow> nat" where
  "digit_val c = of_char c - 48"

definition strip :: "string \<Rightarrow> string" where
  "strip s = rev (dropWhile is_space (rev (dropWhile is_space s)))"

text \<open>\<open>s.split()\<close>: the maximal runs of non-whitespace characters, in order.\<close>

fun split_ws :: "string \<Rightarrow> string \<Rightarrow> string list" where
  "split_ws cur [] = (if cur = [] then [] else [cur])"
| "split_ws cur (c # cs) =
     (if is_space c then (if cur = [] then split_ws [] cs else cur # split_ws [] cs)
      else split_ws (cur @ [c]) cs)"

definition split :: "string \<Rightarrow> string list" where
  "split s = split_ws [] s"

text \<open>
  Iterating a text file opened with universal newlines: a line ends at a line feed or a
  carriage return. (A CR LF pair gives an empty line more than Python does; the parser
  skips empty lines.)
\<close>

fun split_lines :: "string \<Rightarrow> string \<Rightarrow> string list" where
  "split_lines cur [] = [cur]"
| "split_lines cur (c # cs) =
     (if c = CHR 0x0A \<or> c = CHR 0x0D then cur # split_lines [] cs
      else split_lines (cur @ [c]) cs)"

definition file_lines :: "string \<Rightarrow> string list" where
  "file_lines s = split_lines [] s"

text \<open>
  \<open>int(token)\<close> on an ASCII token: an optional sign, then decimal digits, where single
  underscores may separate digits. Anything else raises \<open>ValueError\<close>.
\<close>

fun py_digits :: "bool \<Rightarrow> nat \<Rightarrow> string \<Rightarrow> nat option" where
  "py_digits prev acc [] = (if prev then Some acc else None)"
| "py_digits prev acc (c # cs) =
     (if is_digit c then py_digits True (acc * 10 + digit_val c) cs
      else if c = CHR ''_'' \<and> prev then py_digits False acc cs
      else None)"

definition py_int :: "string \<Rightarrow> py_error + int" where
  "py_int s =
     (case s of
        c # r \<Rightarrow>
          (if c = CHR ''-'' then
             (case py_digits False 0 r of None \<Rightarrow> Inl ValueError | Some n \<Rightarrow> Inr (- int n))
           else if c = CHR ''+'' then
             (case py_digits False 0 r of None \<Rightarrow> Inl ValueError | Some n \<Rightarrow> Inr (int n))
           else
             (case py_digits False 0 s of None \<Rightarrow> Inl ValueError | Some n \<Rightarrow> Inr (int n)))
      | [] \<Rightarrow> Inl ValueError)"

text \<open>\<open>[int(value) for value in tokens]\<close>: the first malformed token raises.\<close>

fun int_tokens :: "string list \<Rightarrow> py_error + int list" where
  "int_tokens [] = Inr []"
| "int_tokens (t # ts) =
     (case py_int t of
        Inl e \<Rightarrow> Inl e
      | Inr n \<Rightarrow> (case int_tokens ts of Inl e \<Rightarrow> Inl e | Inr ns \<Rightarrow> Inr (n # ns)))"

text \<open>
  The loop body of \<open>parse_dimacs\<close> on one raw line; the loop state is the triple
  \<open>(num_vars, num_clauses, clauses)\<close>.
\<close>

definition parse_line :: "int \<times> int \<times> formula \<Rightarrow> string \<Rightarrow> py_error + (int \<times> int \<times> formula)" where
  "parse_line st raw =
     (case st of (nv, nc, cls) \<Rightarrow>
        (let line = strip raw in
         if line = [] \<or> hd line = CHR ''c'' then Inr st
         else if hd line = CHR ''p'' then
           (let parts = split line in
            if length parts \<ge> 4 then
              (case py_int (parts ! 2) of
                 Inl e \<Rightarrow> Inl e
               | Inr v \<Rightarrow>
                   (case py_int (parts ! 3) of
                      Inl e \<Rightarrow> Inl e
                    | Inr c \<Rightarrow> Inr (v, c, cls)))
            else Inr st)
         else
           (case int_tokens (filter (\<lambda>t. t \<noteq> ''0'') (split line)) of
              Inl e \<Rightarrow> Inl e
            | Inr literals \<Rightarrow>
                (if literals \<noteq> [] then Inr (nv, nc, cls @ [literals]) else Inr st))))"

fun parse_lines :: "int \<times> int \<times> formula \<Rightarrow> string list \<Rightarrow> py_error + (int \<times> int \<times> formula)" where
  "parse_lines st [] = Inr st"
| "parse_lines st (raw # rest) =
     (case parse_line st raw of Inl e \<Rightarrow> Inl e | Inr st' \<Rightarrow> parse_lines st' rest)"

definition parse_dimacs :: "string \<Rightarrow> py_error + cnf_formula" where
  "parse_dimacs text =
     (case parse_lines (0, 0, []) (file_lines text) of
        Inl e \<Rightarrow> Inl e
      | Inr (nv, nc, cls) \<Rightarrow>
          Inr \<lparr> num_vars = nv,
                num_clauses = (if nc = 0 then int (length cls) else nc),
                clauses = cls \<rparr>)"

section \<open>utils/sudoku\_encoder.py\<close>

definition SIZE :: int where "SIZE = 9"
definition BOX :: int where "BOX = 3"
definition DIGITS :: "int list" where "DIGITS = [1..9]"

text \<open>\<open>range(a, b)\<close> over Python integers.\<close>

definition py_range :: "int \<Rightarrow> int \<Rightarrow> int list" where
  "py_range a b = [a..b - 1]"

definition var_index :: "int \<Rightarrow> int \<Rightarrow> int \<Rightarrow> int" where
  "var_index row col v = row * SIZE * SIZE + col * SIZE + v"

definition cell_clauses :: formula where
  "cell_clauses =
     concat (map (\<lambda>r. concat (map (\<lambda>c.
       [map (\<lambda>v. var_index r c v) DIGITS] @
       concat (map (\<lambda>v1. concat (map (\<lambda>v2.
         if v1 < v2 then [[- var_index r c v1, - var_index r c v2]] else []) DIGITS)) DIGITS))
       (py_range 0 SIZE))) (py_range 0 SIZE))"

definition row_clauses :: formula where
  "row_clauses =
     concat (map (\<lambda>r. concat (map (\<lambda>v.
       [map (\<lambda>c. var_index r c v) (py_range 0 SIZE)] @
       concat (map (\<lambda>c1. map (\<lambda>c2.
         [- var_index r c1 v, - var_index r c2 v]) (py_range (c1 + 1) SIZE)) (py_range 0 SIZE)))
       DIGITS)) (py_range 0 SIZE))"

definition column_clauses :: formula where
  "column_clauses =
     concat (map (\<lambda>c. concat (map (\<lambda>v.
       [map (\<lambda>r. var_index r c v) (py_range 0 SIZE)] @
       concat (map (\<lambda>r1. map (\<lambda>r2.
         [- var_index r1 c v, - var_index r2 c v]) (py_range (r1 + 1) SIZE)) (py_range 0 SIZE)))
       DIGITS)) (py_range 0 SIZE))"

text \<open>\<open>range(0, SIZE, BOX)\<close> is the list of box origins.\<close>

definition box_origins :: "int list" where
  "box_origins = map (\<lambda>k. k * BOX) (py_range 0 (SIZE div BOX))"

definition box_cells :: "int \<Rightarrow> int \<Rightarrow> (int \<times> int) list" where
  "box_cells br bc =
     concat (map (\<lambda>dr. map (\<lambda>dc. (br + dr, bc + dc)) (py_range 0 BOX)) (py_range 0 BOX))"

definition box_clauses :: formula where
  "box_clauses =
     concat (map (\<lambda>br. concat (map (\<lambda>bc.
       (let cells = box_cells br bc in
        concat (map (\<lambda>v.
          [map (\<lambda>(r, c). var_index r c v) cells] @
          concat (map (\<lambda>i. map (\<lambda>j.
            (case (cells ! nat i, cells ! nat j) of
               ((r1, c1), (r2, c2)) \<Rightarrow> [- var_index r1 c1 v, - var_index r2 c2 v]))
            (py_range (i + 1) (int (length cells)))) (py_range 0 (int (length cells)))))
          DIGITS))) box_origins)) box_origins)"

text \<open>
  \<open>xs[i]\<close>: a negative index counts from the end, and an index outside the list raises
  \<open>IndexError\<close>.
\<close>

definition py_index :: "'a list \<Rightarrow> int \<Rightarrow> py_error + 'a" where
  "py_index xs i =
     (if 0 \<le> i \<and> i < int (length xs) then Inr (xs ! nat i)
      else if i < 0 \<and> - i \<le> int (length xs) then Inr (xs ! nat (int (length xs) + i))
      else Inl IndexError)"

definition clue_cell :: "int list list \<Rightarrow> int \<Rightarrow> int \<Rightarrow> py_error + formula" where
  "clue_cell puzzle r c =
     (case py_index puzzle r of
        Inl e \<Rightarrow> Inl e
      | Inr row \<Rightarrow>
          (case py_index row c of
             Inl e \<Rightarrow> Inl e
           | Inr v \<Rightarrow> Inr (if v \<noteq> 0 then [[var_index r c v]] else [])))"

text \<open>The two nested loops of \<open>clue_clauses\<close>, over the cells in row-major order.\<close>

fun clue_loop :: "int list list \<Rightarrow> (int \<times> int) list \<Rightarrow> py_error + formula" where
  "clue_loop puzzle [] = Inr []"
| "clue_loop puzzle ((r, c) # rest) =
     (case clue_cell puzzle r c of
        Inl e \<Rightarrow> Inl e
      | Inr cs \<Rightarrow> (case clue_loop puzzle rest of Inl e \<Rightarrow> Inl e | Inr others \<Rightarrow> Inr (cs @ others)))"

definition grid_cells :: "(int \<times> int) list" where
  "grid_cells = concat (map (\<lambda>r. map (\<lambda>c. (r, c)) (py_range 0 SIZE)) (py_range 0 SIZE))"

definition clue_clauses :: "int list list \<Rightarrow> py_error + formula" where
  "clue_clauses puzzle = clue_loop puzzle grid_cells"

definition encode :: "int list list \<Rightarrow> py_error + formula" where
  "encode puzzle =
     (case clue_clauses puzzle of
        Inl e \<Rightarrow> Inl e
      | Inr clues \<Rightarrow>
          Inr (cell_clauses @ row_clauses @ column_clauses @ box_clauses @ clues))"

text \<open>\<open>str(n)\<close> for an integer: decimal digits, with a minus sign when negative.\<close>

fun str_nat :: "nat \<Rightarrow> string" where
  "str_nat n = (if n < 10 then [char_of (48 + n)]
                else str_nat (n div 10) @ [char_of (48 + n mod 10)])"

definition str_int :: "int \<Rightarrow> string" where
  "str_int n = (if n < 0 then CHR ''-'' # str_nat (nat (- n)) else str_nat (nat n))"

text \<open>\<open>sep.join(parts)\<close>.\<close>

fun join :: "string \<Rightarrow> string list \<Rightarrow> string" where
  "join sep [] = []"
| "join sep [x] = x"
| "join sep (x # y # ys) = x @ sep @ join sep (y # ys)"

text \<open>
  \<open>write_dimacs\<close>: the text written to the file. The header names
  \<open>SIZE * SIZE * SIZE\<close> variables whatever the clauses are.
\<close>

definition clause_line :: "clause \<Rightarrow> string" where
  "clause_line cl = join '' '' (map str_int cl) @ '' 0'' @ [CHR 0x0A]"

definition write_dimacs :: "formula \<Rightarrow> string" where
  "write_dimacs cls =
     ''p cnf '' @ str_int (SIZE * SIZE * SIZE) @ '' '' @ str_int (int (length cls)) @ [CHR 0x0A]
     @ concat (map clause_line cls)"

section \<open>solvers/dpll\_jw.py\<close>

record dpll_stats =
  dpll_decisions :: int
  unit_propagations :: int
  pure_eliminations :: int

text \<open>The test \<open>(lit > 0 and val) or (lit < 0 and not val)\<close> that every solver uses.\<close>

definition lit_sat :: "int \<Rightarrow> bool \<Rightarrow> bool" where
  "lit_sat lit val = ((lit > 0 \<and> val) \<or> (lit < 0 \<and> \<not> val))"

text \<open>
  The loop of \<open>assign_literal\<close> over the clauses, with the list \<open>updated\<close> as
  accumulator; \<open>None\<close> is the early return on an emptied clause.
\<close>

fun reduce_clauses :: "int \<Rightarrow> formula \<Rightarrow> formula \<Rightarrow> formula option" where
  "reduce_clauses literal [] updated = Some updated"
| "reduce_clauses literal (clause # rest) updated =
     (if literal \<in> set clause then reduce_clauses literal rest updated
      else if - literal \<in> set clause then
        (let reduced = filter (\<lambda>lit. lit \<noteq> - literal) clause in
         if reduced = [] then None
         else reduce_clauses literal rest (updated @ [reduced]))
      else reduce_clauses literal rest (updated @ [clause]))"

text \<open>
  \<open>assign_literal\<close> returns the pair of the source and the assignment dictionary as
  it has mutated it (it writes the variable before it scans the clauses).
\<close>

definition assign_literal :: "formula \<Rightarrow> assignment \<Rightarrow> int \<Rightarrow> formula \<times> bool \<times> assignment" where
  "assign_literal cls asg literal =
     (let var = \<bar>literal\<bar>; val = (literal > 0) in
      (case map_of asg var of
         Some existing \<Rightarrow>
           (if existing \<noteq> val then (cls, True, asg)
            else (case reduce_clauses literal cls [] of
                    None \<Rightarrow> (cls, True, AList.update var val asg)
                  | Some updated \<Rightarrow> (updated, False, AList.update var val asg)))
       | None \<Rightarrow>
           (case reduce_clauses literal cls [] of
              None \<Rightarrow> (cls, True, AList.update var val asg)
            | Some updated \<Rightarrow> (updated, False, AList.update var val asg))))"

text \<open>The inner loop of \<open>unit_propagate\<close> over one clause: \<open>(satisfied, undecided)\<close>.\<close>

fun scan_clause :: "assignment \<Rightarrow> clause \<Rightarrow> int list \<Rightarrow> bool \<times> int list" where
  "scan_clause asg [] undecided = (False, undecided)"
| "scan_clause asg (lit # rest) undecided =
     (case map_of asg \<bar>lit\<bar> of
        None \<Rightarrow> scan_clause asg rest (undecided @ [lit])
      | Some val \<Rightarrow> (if lit_sat lit val then (True, undecided) else scan_clause asg rest undecided))"

datatype unit_search = Conflict | Unit int | NoUnit

fun find_unit :: "assignment \<Rightarrow> formula \<Rightarrow> unit_search" where
  "find_unit asg [] = NoUnit"
| "find_unit asg (clause # rest) =
     (case scan_clause asg clause [] of
        (satisfied, undecided) \<Rightarrow>
          (if satisfied then find_unit asg rest
           else if undecided = [] then Conflict
           else if length undecided = 1 then Unit (hd undecided)
           else find_unit asg rest))"

definition formula_size :: "formula \<Rightarrow> nat" where
  "formula_size cls = sum_list (map length cls)"

lemma reduce_clauses_Some:
  "reduce_clauses l cls upd = Some r \<Longrightarrow>
     r = upd @ map (filter (\<lambda>x. x \<noteq> - l)) (filter (\<lambda>c. l \<notin> set c) cls)"
proof (induction cls arbitrary: upd)
  case Nil
  then show ?case by simp
next
  case (Cons c cls)
  show ?case
  proof (cases "l \<in> set c")
    case True
    with Cons show ?thesis by simp
  next
    case False
    note nin = this
    show ?thesis
    proof (cases "- l \<in> set c")
      case True
      with nin Cons.prems have "reduce_clauses l cls (upd @ [filter (\<lambda>x. x \<noteq> - l) c]) = Some r"
        by (simp add: Let_def split: if_splits)
      from Cons.IH[OF this] nin show ?thesis by simp
    next
      case False
      then have "filter (\<lambda>x. x \<noteq> - l) c = c"
        by (induction c) auto
      with nin False Cons.prems Cons.IH[of "upd @ [c]"] show ?thesis by simp
    qed
  qed
qed

lemma length_filter_clause_le: "length (filter P c) \<le> length c"
  by simp

lemma formula_size_reduced_le:
  "formula_size (map (filter P) (filter Q cls)) \<le> formula_size cls"
  unfolding formula_size_def
proof (induction cls)
  case Nil
  then show ?case by simp
next
  case (Cons c cls)
  have "length (filter P c) \<le> length c" by simp
  with Cons show ?case by (simp add: add_mono trans_le_add2)
qed

lemma formula_size_reduced_less:
  assumes "c \<in> set cls" and "l \<in> set c \<or> - l \<in> set c"
  shows "formula_size (map (filter (\<lambda>x. x \<noteq> - l)) (filter (\<lambda>c. l \<notin> set c) cls)) < formula_size cls"
  using assms
proof (induction cls)
  case Nil
  then show ?case by simp
next
  case (Cons d cls)
  let ?f = "\<lambda>cs. formula_size (map (filter (\<lambda>x. x \<noteq> - l)) (filter (\<lambda>c. l \<notin> set c) cs))"
  have rest_le: "?f cls \<le> formula_size cls" by (rule formula_size_reduced_le)
  show ?case
  proof (cases "c = d")
    case True
    show ?thesis
    proof (cases "l \<in> set d")
      case True
      then obtain x xs where "d = x # xs" by (cases d) auto
      with True rest_le show ?thesis by (simp add: formula_size_def)
    next
      case False
      with Cons.prems \<open>c = d\<close> have "- l \<in> set d" by simp
      then have "length (filter (\<lambda>x. x \<noteq> - l) d) < length d"
        by (simp add: length_filter_less)
      with False rest_le show ?thesis by (simp add: formula_size_def)
    qed
  next
    case False
    with Cons.prems have "c \<in> set cls" by simp
    from Cons.IH[OF this Cons.prems(2)] have "?f cls < formula_size cls" .
    then show ?thesis
      by (auto simp: formula_size_def intro: add_le_less_mono trans_less_add2)
  qed
qed

lemma assign_literal_cases:
  assumes "assign_literal cls asg l = (cls', conflict, asg')"
  shows "(conflict \<and> cls' = cls) \<or>
         (\<not> conflict \<and> map_of asg \<bar>l\<bar> \<noteq> Some (\<not> l > 0) \<and> asg' = AList.update \<bar>l\<bar> (l > 0) asg \<and>
          cls' = map (filter (\<lambda>x. x \<noteq> - l)) (filter (\<lambda>c. l \<notin> set c) cls))"
  using assms reduce_clauses_Some[of l cls "[]"]
  by (auto simp: assign_literal_def Let_def split: option.splits if_splits)

lemma assign_literal_size_le:
  "assign_literal cls asg l = (cls', conflict, asg') \<Longrightarrow> formula_size cls' \<le> formula_size cls"
  using assign_literal_cases[of cls asg l cls' conflict asg'] formula_size_reduced_le
  by auto

lemma assign_literal_length_le:
  "assign_literal cls asg l = (cls', conflict, asg') \<Longrightarrow> length cls' \<le> length cls"
  using assign_literal_cases[of cls asg l cls' conflict asg']
  by auto

lemma scan_clause_undecided:
  "scan_clause asg c und = (sat, und') \<Longrightarrow> set und' \<subseteq> set und \<union> set c"
proof (induction c arbitrary: und)
  case Nil
  then show ?case by auto
next
  case (Cons l c)
  show ?case
  proof (cases "map_of asg \<bar>l\<bar>")
    case None
    with Cons.prems have "scan_clause asg c (und @ [l]) = (sat, und')" by simp
    from Cons.IH[OF this] show ?thesis by auto
  next
    case (Some v)
    show ?thesis
    proof (cases "lit_sat l v")
      case True
      with Some Cons.prems show ?thesis by auto
    next
      case False
      with Some Cons.prems have "scan_clause asg c und = (sat, und')" by simp
      from Cons.IH[OF this] show ?thesis by auto
    qed
  qed
qed

lemma find_unit_Unit:
  "find_unit asg cls = Unit l \<Longrightarrow> \<exists>c \<in> set cls. l \<in> set c"
proof (induction cls)
  case Nil
  then show ?case by simp
next
  case (Cons c cls)
  obtain sat und where sc: "scan_clause asg c [] = (sat, und)" by (cases "scan_clause asg c []")
  show ?case
  proof (cases "\<not> sat \<and> und \<noteq> [] \<and> length und = 1")
    case True
    with sc Cons.prems have "l = hd und" by simp
    with True have "l \<in> set und" by (cases und) auto
    with scan_clause_undecided[OF sc] show ?thesis by auto
  next
    case False
    with sc Cons.prems have "find_unit asg cls = Unit l" by (auto split: if_splits)
    from Cons.IH[OF this] show ?thesis by auto
  qed
qed

lemma assign_literal_length_less:
  assumes "assign_literal cls asg l = (cls', False, asg')" and "c \<in> set cls" and "l \<in> set c"
  shows "length cls' < length cls"
proof -
  from assign_literal_cases[OF assms(1)]
  have "cls' = map (filter (\<lambda>x. x \<noteq> - l)) (filter (\<lambda>c. l \<notin> set c) cls)" by simp
  moreover have "length (filter (\<lambda>c. l \<notin> set c) cls) < length cls"
    using assms(2,3) by (intro length_filter_less[of c]) auto
  ultimately show ?thesis by simp
qed

text \<open>
  \<open>unit_propagate\<close>: the \<open>while True\<close> loop. Every round that goes on has dropped
  the clause the unit literal came from, so the loop ends.
\<close>

function unit_propagate :: "formula \<Rightarrow> assignment \<Rightarrow> dpll_stats \<Rightarrow> formula \<times> bool \<times> assignment \<times> dpll_stats" where
  "unit_propagate current asg stats =
     (case find_unit asg current of
        Conflict \<Rightarrow> (current, True, asg, stats)
      | NoUnit \<Rightarrow> (current, False, asg, stats)
      | Unit unit_literal \<Rightarrow>
          (let stats' = stats\<lparr>unit_propagations := unit_propagations stats + 1\<rparr> in
           (case assign_literal current asg unit_literal of
              (current', conflict, asg') \<Rightarrow>
                (if conflict then (current', True, asg', stats')
                 else unit_propagate current' asg' stats'))))"
  by pat_completeness auto
termination
proof (relation "measure (\<lambda>(current, asg, stats). length current)", goal_cases)
  case 1
  then show ?case by simp
next
  case prems: (2 current asg stats l stats' current' y conflict asg')
  from prems(1) obtain c where "c \<in> set current" "l \<in> set c"
    using find_unit_Unit by blast
  moreover from prems have "assign_literal current asg l = (current', False, asg')" by simp
  ultimately show ?case using assign_literal_length_less by simp
qed

text \<open>The counting loop of \<open>pure_literal_elimination\<close> over one clause.\<close>

fun count_clause :: "assignment \<Rightarrow> clause \<Rightarrow> (int \<times> int) list \<Rightarrow> (int \<times> int) list" where
  "count_clause asg [] literal_counts = literal_counts"
| "count_clause asg (lit # rest) literal_counts =
     (case map_of asg \<bar>lit\<bar> of
        None \<Rightarrow>
          count_clause asg rest
            (AList.update lit ((case map_of literal_counts lit of None \<Rightarrow> 0 | Some n \<Rightarrow> n) + 1)
               literal_counts)
      | Some val \<Rightarrow>
          (if lit_sat lit val then literal_counts else count_clause asg rest literal_counts))"

fun pure_loop :: "formula \<Rightarrow> assignment \<Rightarrow> dpll_stats \<Rightarrow> int list \<Rightarrow> formula \<times> bool \<times> assignment \<times> dpll_stats" where
  "pure_loop current asg stats [] = (current, False, asg, stats)"
| "pure_loop current asg stats (lit # rest) =
     (let stats' = stats\<lparr>pure_eliminations := pure_eliminations stats + 1\<rparr> in
      (case assign_literal current asg lit of
         (current', conflict, asg') \<Rightarrow>
           (if conflict then (current', True, asg', stats')
            else pure_loop current' asg' stats' rest)))"

definition pure_literal_elimination :: "formula \<Rightarrow> assignment \<Rightarrow> dpll_stats \<Rightarrow> formula \<times> bool \<times> assignment \<times> dpll_stats" where
  "pure_literal_elimination cls asg stats =
     (let literal_counts = fold (count_clause asg) cls [];
          pure_literals = filter (\<lambda>lit. map_of literal_counts (- lit) = None) (map fst literal_counts)
      in if pure_literals = [] then (cls, False, asg, stats)
         else pure_loop cls asg stats pure_literals)"

text \<open>The scoring loop of \<open>pick_literal\<close> over one clause, with the clause's weight.\<close>

fun score_clause :: "'f float_ops \<Rightarrow> assignment \<Rightarrow> 'f \<Rightarrow> clause \<Rightarrow> (int \<times> 'f) list \<Rightarrow> (int \<times> 'f) list" where
  "score_clause ops asg weight [] scores = scores"
| "score_clause ops asg weight (lit # rest) scores =
     (case map_of asg \<bar>lit\<bar> of
        None \<Rightarrow>
          score_clause ops asg weight rest
            (AList.update lit
               (f_add ops (case map_of scores lit of None \<Rightarrow> f_zero ops | Some w \<Rightarrow> w) weight)
               scores)
      | Some val \<Rightarrow>
          (if lit_sat lit val then scores else score_clause ops asg weight rest scores))"

definition clause_weight :: "'f float_ops \<Rightarrow> clause \<Rightarrow> 'f" where
  "clause_weight ops clause =
     (if clause \<noteq> [] then f_pow2neg ops (length clause) else f_zero ops)"

text \<open>\<open>max(items, key=...)\<close>: the first item whose key no later item exceeds.\<close>

fun py_max_by :: "'a \<times> ('f::linorder) \<Rightarrow> ('a \<times> 'f) list \<Rightarrow> 'a \<times> 'f" where
  "py_max_by best [] = best"
| "py_max_by best (item # rest) =
     (if snd item > snd best then py_max_by item rest else py_max_by best rest)"

definition pick_literal :: "('f::linorder) float_ops \<Rightarrow> formula \<Rightarrow> assignment \<Rightarrow> py_error + int" where
  "pick_literal ops cls asg =
     (let scores = fold (\<lambda>clause. score_clause ops asg (clause_weight ops clause) clause) cls []
      in (case scores of
            [] \<Rightarrow>
              (case filter (\<lambda>lit. map_of asg \<bar>lit\<bar> = None) (concat cls) of
                 [] \<Rightarrow> Inl ValueError
               | lit # _ \<Rightarrow> Inr lit)
          | item # rest \<Rightarrow> Inr (fst (py_max_by item rest))))"

lemma score_clause_keys:
  "fst ` set (score_clause ops asg w c scores) \<subseteq> fst ` set scores \<union> set c"
proof (induction c arbitrary: scores)
  case Nil
  then show ?case by simp
next
  case (Cons l c)
  show ?case
  proof (cases "map_of asg \<bar>l\<bar>")
    case None
    have "fst ` set (AList.update l v scores) = insert l (fst ` set scores)" for v
      by (simp add: AList.dom_update)
    with Cons.IH[of "AList.update l (f_add ops (case map_of scores l of None \<Rightarrow> f_zero ops | Some w \<Rightarrow> w) w) scores"]
    show ?thesis using None by auto
  next
    case (Some v)
    with Cons.IH[of scores] show ?thesis by auto
  qed
qed

lemma fold_score_clause_keys:
  "fst ` set (fold (\<lambda>clause. score_clause ops asg (clause_weight ops clause) clause) cls scores)
     \<subseteq> fst ` set scores \<union> \<Union> (set ` set cls)"
proof (induction cls arbitrary: scores)
  case Nil
  then show ?case by simp
next
  case (Cons c cls)
  from Cons.IH[of "score_clause ops asg (clause_weight ops c) c scores"]
    score_clause_keys[of ops asg "clause_weight ops c" c scores]
  show ?case by auto
qed

lemma py_max_by_mem: "py_max_by best items \<in> set (best # items)"
  by (induction items arbitrary: best) (auto split: if_splits)

lemma pick_literal_mem:
  assumes "pick_literal ops cls asg = Inr lit"
  shows "\<exists>c \<in> set cls. lit \<in> set c"
proof -
  let ?scores = "fold (\<lambda>clause. score_clause ops asg (clause_weight ops clause) clause) cls []"
  show ?thesis
  proof (cases ?scores)
    case Nil
    with assms obtain rest where "filter (\<lambda>lit. map_of asg \<bar>lit\<bar> = None) (concat cls) = lit # rest"
      by (auto simp: pick_literal_def Let_def split: list.splits)
    then have "lit \<in> set (filter (\<lambda>lit. map_of asg \<bar>lit\<bar> = None) (concat cls))" by simp
    then show ?thesis by auto
  next
    case (Cons item rest)
    with assms have "lit = fst (py_max_by item rest)"
      by (simp add: pick_literal_def Let_def)
    moreover have "py_max_by item rest \<in> set ?scores"
      using py_max_by_mem[of item rest] Cons by simp
    ultimately have "lit \<in> fst ` set ?scores" by force
    with fold_score_clause_keys[of ops asg cls "[]"] show ?thesis by auto
  qed
qed

lemma unit_propagate_size_le:
  "unit_propagate cls asg stats = (cls', conflict, asg', stats') \<Longrightarrow> formula_size cls' \<le> formula_size cls"
proof (induction cls asg stats rule: unit_propagate.induct)
  case (1 current asg stats)
  show ?case
  proof (cases "find_unit asg current")
    case Conflict
    with "1.prems" show ?thesis by simp
  next
    case NoUnit
    with "1.prems" show ?thesis by simp
  next
    case (Unit l)
    obtain c1 cf a1 where al: "assign_literal current asg l = (c1, cf, a1)"
      by (cases "assign_literal current asg l")
    note le = assign_literal_size_le[OF al]
    show ?thesis
    proof (cases cf)
      case True
      with Unit al "1.prems" le show ?thesis by (simp add: Let_def)
    next
      case False
      with Unit al "1.prems"
      have "unit_propagate c1 a1 (stats\<lparr>unit_propagations := unit_propagations stats + 1\<rparr>) = (cls', conflict, asg', stats')"
        by (simp add: Let_def)
      from "1.IH"[OF Unit refl al[symmetric] refl False this] le show ?thesis by simp
    qed
  qed
qed

lemma pure_loop_size_le:
  "pure_loop cls asg stats lits = (cls', conflict, asg', stats') \<Longrightarrow> formula_size cls' \<le> formula_size cls"
proof (induction lits arbitrary: cls asg stats)
  case Nil
  then show ?case by simp
next
  case (Cons l lits)
  obtain c1 cf a1 where al: "assign_literal cls asg l = (c1, cf, a1)"
    by (cases "assign_literal cls asg l")
  note le = assign_literal_size_le[OF al]
  show ?case
  proof (cases cf)
    case True
    with al Cons.prems le show ?thesis by (simp add: Let_def)
  next
    case False
    with al Cons.prems
    have "pure_loop c1 a1 (stats\<lparr>pure_eliminations := pure_eliminations stats + 1\<rparr>) lits = (cls', conflict, asg', stats')"
      by (simp add: Let_def)
    from Cons.IH[OF this] le show ?thesis by simp
  qed
qed

lemma pure_literal_elimination_size_le:
  "pure_literal_elimination cls asg stats = (cls', conflict, asg', stats') \<Longrightarrow> formula_size cls' \<le> formula_size cls"
  using pure_loop_size_le
  by (auto simp: pure_literal_elimination_def Let_def split: if_splits)

lemma assign_literal_var_size_less:
  assumes "assign_literal cls asg l = (cls', False, asg')" and "c \<in> set cls" and "l \<in> set c \<or> - l \<in> set c"
  shows "formula_size cls' < formula_size cls"
  using assign_literal_cases[OF assms(1)] formula_size_reduced_less[OF assms(2,3)] by simp

lemma dpll_branch_decreases:
  assumes up: "(x, xa, xb, yb) = unit_propagate cls asg stats"
    and pe: "(xaa, xc, xd, ye) = pure_literal_elimination x xb yb"
    and pick: "pick_literal ops xaa xd = Inr b"
    and al: "(xg, xh, yg) = assign_literal xaa xd l"
    and nc: "\<not> xh"
    and l: "l = \<bar>b\<bar> \<or> l = - \<bar>b\<bar>"
  shows "formula_size xg < formula_size cls"
proof -
  from pick_literal_mem[OF pick] obtain c where c: "c \<in> set xaa" "b \<in> set c" by blast
  from l c(2) have "l \<in> set c \<or> - l \<in> set c" by (cases "b \<ge> 0") auto
  with al nc c(1) have "formula_size xg < formula_size xaa"
    using assign_literal_var_size_less[of xaa xd l xg yg c] by simp
  moreover have "formula_size xaa \<le> formula_size x"
    using pure_literal_elimination_size_le[OF pe[symmetric]] .
  moreover have "formula_size x \<le> formula_size cls"
    using unit_propagate_size_le[OF up[symmetric]] .
  ultimately show ?thesis by simp
qed

text \<open>
  \<open>dpll\<close>. The statistics object is shared by all calls, so it is threaded through
  them; \<open>assignment.copy()\<close> is the identity on a value. The two rounds of the loop
  \<open>for value in (True, False)\<close> are written out. The recursion ends because every
  branch assigns a literal whose variable occurs in the clauses, which removes at least one
  literal occurrence.
\<close>

function dpll :: "('f::linorder) float_ops \<Rightarrow> formula \<Rightarrow> assignment \<Rightarrow> dpll_stats \<Rightarrow> py_error + (bool \<times> assignment \<times> dpll_stats)" where
  "dpll ops cls asg stats =
     (case unit_propagate cls asg stats of
        (current, conflict, asg1, stats1) \<Rightarrow>
     if conflict then Inr (False, asg1, stats1)
     else
     (case pure_literal_elimination current asg1 stats1 of
        (current2, conflict2, asg2, stats2) \<Rightarrow>
     if conflict2 then Inr (False, asg2, stats2)
     else if current2 = [] then Inr (True, asg2, stats2)
     else
     (case pick_literal ops current2 asg2 of
        Inl e \<Rightarrow> Inl e
      | Inr literal \<Rightarrow>
     (let var = \<bar>literal\<bar>;
          statsA = stats2\<lparr>dpll_decisions := dpll_decisions stats2 + 1\<rparr>
      in
     (case assign_literal current2 asg2 var of
        (new_clauses, branch_conflict, trial) \<Rightarrow>
     (case (if branch_conflict then Inr (False, trial, statsA)
            else dpll ops new_clauses trial statsA) of
        Inl e \<Rightarrow> Inl e
      | Inr (result, final_assignment, statsB) \<Rightarrow>
     if result then Inr (True, final_assignment, statsB)
     else
     (let statsC = statsB\<lparr>dpll_decisions := dpll_decisions statsB + 1\<rparr> in
     (case assign_literal current2 asg2 (- var) of
        (new_clauses2, branch_conflict2, trial2) \<Rightarrow>
     if branch_conflict2 then Inr (False, asg2, statsC)
     else
     (case dpll ops new_clauses2 trial2 statsC of
        Inl e \<Rightarrow> Inl e
      | Inr (result2, final2, statsD) \<Rightarrow>
     if result2 then Inr (True, final2, statsD)
     else Inr (False, asg2, statsD))))))))))"
  by pat_completeness auto
termination
proof (relation "measure (\<lambda>(ops, cls, asg, stats). formula_size cls)", goal_cases)
  case 1
  then show ?case by simp
next
  case prems: (2 ops cls asg stats x y xa ya xb yb xaa yc xc yd xd ye b xe xf xg yf xh yg)
  have "formula_size xg < formula_size cls"
  proof (rule dpll_branch_decreases)
    show "(x, xa, xb, yb) = unit_propagate cls asg stats" using prems by simp
    show "(xaa, xc, xd, ye) = pure_literal_elimination x xb yb" using prems by simp
    show "pick_literal ops xaa xd = Inr b" using prems by simp
    show "(xg, xh, yg) = assign_literal xaa xd xe" using prems by simp
    show "\<not> xh" using prems by simp
    show "xe = \<bar>b\<bar> \<or> xe = - \<bar>b\<bar>" using prems by simp
  qed
  then show ?case by simp
next
  case prems: (3 ops cls asg stats x y xa ya xb yb xaa yc xc yd xd ye b xe xf xg yf xh
        yg ba xi yh xj yi xk xl yj xm yk)
  have "formula_size xl < formula_size cls"
  proof (rule dpll_branch_decreases)
    show "(x, xa, xb, yb) = unit_propagate cls asg stats" using prems by simp
    show "(xaa, xc, xd, ye) = pure_literal_elimination x xb yb" using prems by simp
    show "pick_literal ops xaa xd = Inr b" using prems by simp
    show "(xl, xm, yk) = assign_literal xaa xd (- xe)" using prems by simp
    show "\<not> xm" using prems by simp
    show "- xe = \<bar>b\<bar> \<or> - xe = - \<bar>b\<bar>" using prems by simp
  qed
  then show ?case by simp
qed


text \<open>
  A result record is a Python dictionary from field names to values; \<open>run_solver\<close>
  takes the text of the file at \<open>path\<close>.
\<close>

datatype pyval = PStr string | PInt int | PAssignment assignment

type_synonym result = "(string \<times> pyval) list"

definition dpll_run_solver :: "('f::linorder) float_ops \<Rightarrow> string \<Rightarrow> py_error + result" where
  "dpll_run_solver ops text =
     (case parse_dimacs text of
        Inl e \<Rightarrow> Inl e
      | Inr formula \<Rightarrow>
          (case dpll ops (clauses formula) []
                  \<lparr>dpll_decisions = 0, unit_propagations = 0, pure_eliminations = 0\<rparr> of
             Inl e \<Rightarrow> Inl e
           | Inr (sat, asg, stats) \<Rightarrow>
               Inr [(''solver'', PStr ''dpll_jw''),
                    (''status'', PStr (if sat then ''SAT'' else ''UNSAT'')),
                    (''decisions'', PInt (dpll_decisions stats)),
                    (''unit_propagations'', PInt (unit_propagations stats)),
                    (''pure_eliminations'', PInt (pure_eliminations stats)),
                    (''assignment'', PAssignment (if sat then asg else [])),
                    (''num_vars'', PInt (num_vars formula)),
                    (''num_clauses'', PInt (num_clauses formula))]))"

section \<open>solvers/walksat.py and solvers/probsat.py\<close>

text \<open>
  The module \<open>random\<close> is a global generator. Its state is a value of any type \<open>'g\<close>,
  threaded through every call; \<open>rng_below n\<close> is the index \<open>random.choice\<close> draws for a
  sequence of length \<open>n\<close>, \<open>rng_random\<close> is \<open>random.random()\<close> and \<open>rng_seed\<close> is the
  state after \<open>random.seed(n)\<close>.
\<close>

record ('g, 'f) rng_ops =
  rng_seed :: "int \<Rightarrow> 'g"
  rng_below :: "nat \<Rightarrow> 'g \<Rightarrow> nat \<times> 'g"
  rng_random :: "'g \<Rightarrow> 'f \<times> 'g"

record ls_stats =
  flips :: int
  ls_restarts :: int

definition py_choice :: "('g, 'f) rng_ops \<Rightarrow> 'a list \<Rightarrow> 'g \<Rightarrow> py_error + ('a \<times> 'g)" where
  "py_choice R xs g =
     (if xs = [] then Inl IndexError
      else (case rng_below R (length xs) g of (i, g') \<Rightarrow> Inr (xs ! (i mod length xs), g')))"

text \<open>The dictionary comprehension of \<open>initialize_assignment\<close>, one draw per variable.\<close>

fun init_loop :: "('g, 'f) rng_ops \<Rightarrow> int list \<Rightarrow> assignment \<Rightarrow> 'g \<Rightarrow> py_error + (assignment \<times> 'g)" where
  "init_loop R [] asg g = Inr (asg, g)"
| "init_loop R (var # rest) asg g =
     (case py_choice R [True, False] g of
        Inl e \<Rightarrow> Inl e
      | Inr (b, g') \<Rightarrow> init_loop R rest (AList.update var b asg) g')"

definition initialize_assignment :: "('g, 'f) rng_ops \<Rightarrow> int \<Rightarrow> 'g \<Rightarrow> py_error + (assignment \<times> 'g)" where
  "initialize_assignment R n g = init_loop R (py_range 1 (n + 1)) [] g"

fun clause_value :: "clause \<Rightarrow> assignment \<Rightarrow> bool" where
  "clause_value [] asg = False"
| "clause_value (lit # rest) asg =
     (case map_of asg \<bar>lit\<bar> of
        None \<Rightarrow> clause_value rest asg
      | Some val \<Rightarrow> (if lit_sat lit val then True else clause_value rest asg))"

definition unsatisfied_clauses :: "formula \<Rightarrow> assignment \<Rightarrow> formula" where
  "unsatisfied_clauses cls asg = filter (\<lambda>clause. \<not> clause_value clause asg) cls"

text \<open>\<open>assignment[var] = not assignment[var]\<close>: a missing key raises \<open>KeyError\<close>.\<close>

definition flip_variable :: "assignment \<Rightarrow> int \<Rightarrow> py_error + assignment" where
  "flip_variable asg var =
     (case map_of asg var of
        None \<Rightarrow> Inl KeyError
      | Some b \<Rightarrow> Inr (AList.update var (\<not> b) asg))"

text \<open>
  The greedy loop of \<open>walk_sat\<close> over the literals of the chosen clause. \<open>best\<close> is
  \<open>None\<close> while \<open>best_score\<close> is infinite, else the pair \<open>(best_var, best_score)\<close>.
\<close>

fun best_loop :: "formula \<Rightarrow> assignment \<Rightarrow> clause \<Rightarrow> (int \<times> nat) option \<Rightarrow> py_error + (assignment \<times> (int \<times> nat) option)" where
  "best_loop cls asg [] best = Inr (asg, best)"
| "best_loop cls asg (lit # rest) best =
     (let var = \<bar>lit\<bar> in
      (case flip_variable asg var of
         Inl e \<Rightarrow> Inl e
       | Inr asg1 \<Rightarrow>
           (let broken = length (unsatisfied_clauses cls asg1) in
            (case flip_variable asg1 var of
               Inl e \<Rightarrow> Inl e
             | Inr asg2 \<Rightarrow>
                 (if (case best of None \<Rightarrow> True | Some (bv, bs) \<Rightarrow> broken < bs)
                  then best_loop cls asg2 rest (Some (var, broken))
                  else best_loop cls asg2 rest best)))))"

text \<open>One round of the loop \<open>for step in range(max_flips)\<close> of \<open>walk_sat\<close>, after the
  test for a satisfying assignment: the new assignment, statistics and generator.\<close>

definition walk_step :: "('g, 'f::linorder) rng_ops \<Rightarrow> formula \<Rightarrow> 'f \<Rightarrow> formula \<Rightarrow> assignment \<Rightarrow> ls_stats \<Rightarrow> 'g \<Rightarrow> py_error + (assignment \<times> ls_stats \<times> 'g)" where
  "walk_step R cls noise unsatisfied asg stats g =
     (case py_choice R unsatisfied g of
        Inl e \<Rightarrow> Inl e
      | Inr (clause, g1) \<Rightarrow>
          (let stats1 = stats\<lparr>flips := flips stats + 1\<rparr> in
           (case rng_random R g1 of
              (x, g2) \<Rightarrow>
                if x < noise then
                  (case py_choice R clause g2 of
                     Inl e \<Rightarrow> Inl e
                   | Inr (lit, g3) \<Rightarrow>
                       (case flip_variable asg \<bar>lit\<bar> of
                          Inl e \<Rightarrow> Inl e
                        | Inr asg' \<Rightarrow> Inr (asg', stats1, g3)))
                else
                  (case best_loop cls asg clause None of
                     Inl e \<Rightarrow> Inl e
                   | Inr (asg1, best) \<Rightarrow>
                       (case best of
                          None \<Rightarrow>
                            (case py_choice R clause g2 of
                               Inl e \<Rightarrow> Inl e
                             | Inr (lit, g3) \<Rightarrow>
                                 (case flip_variable asg1 \<bar>lit\<bar> of
                                    Inl e \<Rightarrow> Inl e
                                  | Inr asg' \<Rightarrow> Inr (asg', stats1, g3)))
                        | Some (best_var, best_score) \<Rightarrow>
                            (case flip_variable asg1 best_var of
                               Inl e \<Rightarrow> Inl e
                             | Inr asg' \<Rightarrow> Inr (asg', stats1, g2)))))))"

fun walk_loop :: "('g, 'f::linorder) rng_ops \<Rightarrow> formula \<Rightarrow> 'f \<Rightarrow> nat \<Rightarrow> assignment \<Rightarrow> ls_stats \<Rightarrow> 'g \<Rightarrow> py_error + (assignment option \<times> ls_stats \<times> 'g)" where
  "walk_loop R cls noise 0 asg stats g = Inr (None, stats, g)"
| "walk_loop R cls noise (Suc k) asg stats g =
     (let unsatisfied = unsatisfied_clauses cls asg in
      if unsatisfied = [] then Inr (Some asg, stats, g)
      else (case walk_step R cls noise unsatisfied asg stats g of
              Inl e \<Rightarrow> Inl e
            | Inr (asg', stats', g') \<Rightarrow> walk_loop R cls noise k asg' stats' g'))"

definition walk_sat :: "('g, 'f::linorder) rng_ops \<Rightarrow> formula \<Rightarrow> int \<Rightarrow> int \<Rightarrow> 'f \<Rightarrow> ls_stats \<Rightarrow> 'g \<Rightarrow> py_error + (assignment option \<times> ls_stats \<times> 'g)" where
  "walk_sat R cls n max_flips noise stats g =
     (case initialize_assignment R n g of
        Inl e \<Rightarrow> Inl e
      | Inr (asg, g') \<Rightarrow> walk_loop R cls noise (nat max_flips) asg stats g')"

text \<open>
  The loop \<open>for attempt in range(restarts)\<close> of \<open>run_solver\<close>, shared by both local
  search solvers: \<open>attempt\<close> is one call of \<open>walk_sat\<close> or \<open>prob_sat\<close>. It returns
  \<open>best_assignment\<close>.
\<close>

fun restart_loop :: "(ls_stats \<Rightarrow> 'g \<Rightarrow> py_error + (assignment option \<times> ls_stats \<times> 'g)) \<Rightarrow> nat \<Rightarrow> ls_stats \<Rightarrow> 'g \<Rightarrow> py_error + (assignment option \<times> ls_stats \<times> 'g)" where
  "restart_loop attempt 0 stats g = Inr (None, stats, g)"
| "restart_loop attempt (Suc k) stats g =
     (case attempt stats g of
        Inl e \<Rightarrow> Inl e
      | Inr (Some asg, stats', g') \<Rightarrow> Inr (Some asg, stats', g')
      | Inr (None, stats', g') \<Rightarrow>
          restart_loop attempt k (stats'\<lparr>ls_restarts := ls_restarts stats' + 1\<rparr>) g')"

text \<open>
  The end of \<open>run_solver\<close>. \<open>"SAT" if best_assignment else "UNKNOWN"\<close> tests the
  truth value of the dictionary: \<open>None\<close> and the empty dictionary are both false.
\<close>

definition ls_result :: "string \<Rightarrow> cnf_formula \<Rightarrow> assignment option \<Rightarrow> ls_stats \<Rightarrow> result" where
  "ls_result name formula best_assignment stats =
     [(''solver'', PStr name),
      (''status'', PStr (if best_assignment \<noteq> None \<and> best_assignment \<noteq> Some [] then ''SAT'' else ''UNKNOWN'')),
      (''flips'', PInt (flips stats)),
      (''restarts'', PInt (ls_restarts stats)),
      (''num_vars'', PInt (num_vars formula)),
      (''num_clauses'', PInt (num_clauses formula)),
      (''assignment'', PAssignment (case best_assignment of None \<Rightarrow> [] | Some asg \<Rightarrow> asg))]"

definition walksat_run_solver :: "('g, 'f::linorder) rng_ops \<Rightarrow> string \<Rightarrow> int \<Rightarrow> 'f \<Rightarrow> int \<Rightarrow> 'g \<Rightarrow> py_error + (result \<times> 'g)" where
  "walksat_run_solver R text max_flips noise restarts g =
     (case parse_dimacs text of
        Inl e \<Rightarrow> Inl e
      | Inr formula \<Rightarrow>
          (case restart_loop (walk_sat R (clauses formula) (num_vars formula) max_flips noise)
                  (nat restarts) \<lparr>flips = 0, ls_restarts = 0\<rparr> g of
             Inl e \<Rightarrow> Inl e
           | Inr (best_assignment, stats, g') \<Rightarrow>
               Inr (ls_result ''walksat'' formula best_assignment stats, g')))"

text \<open>
  \<open>main\<close> without the clock: \<open>g\<close> is the state of the global generator when the process
  starts, \<open>seed\<close> the option \<open>--seed\<close>.
\<close>

definition walksat_main :: "('g, 'f::linorder) rng_ops \<Rightarrow> string \<Rightarrow> int \<Rightarrow> 'f \<Rightarrow> int \<Rightarrow> int option \<Rightarrow> 'g \<Rightarrow> py_error + result" where
  "walksat_main R text max_flips noise restarts seed g =
     (let g1 = (case seed of None \<Rightarrow> g | Some n \<Rightarrow> rng_seed R n) in
      (case walksat_run_solver R text max_flips noise restarts g1 of
         Inl e \<Rightarrow> Inl e
       | Inr (res, g2) \<Rightarrow> Inr res))"

text \<open>probSAT. \<open>break_score\<close> flips, counts and flips back.\<close>

definition break_score :: "formula \<Rightarrow> assignment \<Rightarrow> int \<Rightarrow> py_error + (nat \<times> assignment)" where
  "break_score cls asg var =
     (case flip_variable asg var of
        Inl e \<Rightarrow> Inl e
      | Inr asg1 \<Rightarrow>
          (let score = length (filter (\<lambda>clause. \<not> clause_value clause asg1) cls) in
           (case flip_variable asg1 var of
              Inl e \<Rightarrow> Inl e
            | Inr asg2 \<Rightarrow> Inr (score, asg2))))"

fun score_loop :: "'f float_ops \<Rightarrow> formula \<Rightarrow> 'f \<Rightarrow> clause \<Rightarrow> assignment \<Rightarrow> (int \<times> 'f) list \<Rightarrow> 'f \<Rightarrow> py_error + (assignment \<times> (int \<times> 'f) list \<times> 'f)" where
  "score_loop ops cls epsilon [] asg scores tot = Inr (asg, scores, tot)"
| "score_loop ops cls epsilon (lit # rest) asg scores tot =
     (let var = \<bar>lit\<bar> in
      (case break_score cls asg var of
         Inl e \<Rightarrow> Inl e
       | Inr (b, asg') \<Rightarrow>
           (case f_pow ops epsilon b of
              Inl e \<Rightarrow> Inl e
            | Inr score \<Rightarrow>
                score_loop ops cls epsilon rest asg' (scores @ [(var, score)])
                  (f_add ops tot score))))"

fun sample_loop :: "('f::linorder) float_ops \<Rightarrow> 'f \<Rightarrow> 'f \<Rightarrow> (int \<times> 'f) list \<Rightarrow> int option" where
  "sample_loop ops r accum [] = None"
| "sample_loop ops r accum ((var, score) # rest) =
     (let accum' = f_add ops accum score in
      if accum' \<ge> r then Some var else sample_loop ops r accum' rest)"

definition select_variable_probabilistic :: "('f::linorder) float_ops \<Rightarrow> ('g, 'f) rng_ops \<Rightarrow> clause \<Rightarrow> formula \<Rightarrow> assignment \<Rightarrow> 'f \<Rightarrow> 'g \<Rightarrow> py_error + (int \<times> assignment \<times> 'g)" where
  "select_variable_probabilistic ops R clause cls asg epsilon g =
     (case score_loop ops cls epsilon clause asg [] (f_zero ops) of
        Inl e \<Rightarrow> Inl e
      | Inr (asg', scores, tot) \<Rightarrow>
          (case rng_random R g of
             (x, g') \<Rightarrow>
               (let r = f_mul ops x tot in
                (case sample_loop ops r (f_zero ops) scores of
                   Some var \<Rightarrow> Inr (var, asg', g')
                 | None \<Rightarrow>
                     (if scores = [] then Inl IndexError
                      else Inr (fst (last scores), asg', g'))))))"

fun prob_loop :: "('f::linorder) float_ops \<Rightarrow> ('g, 'f) rng_ops \<Rightarrow> formula \<Rightarrow> 'f \<Rightarrow> nat \<Rightarrow> assignment \<Rightarrow> ls_stats \<Rightarrow> 'g \<Rightarrow> py_error + (assignment option \<times> ls_stats \<times> 'g)" where
  "prob_loop ops R cls epsilon 0 asg stats g = Inr (None, stats, g)"
| "prob_loop ops R cls epsilon (Suc k) asg stats g =
     (let unsatisfied = unsatisfied_clauses cls asg in
      if unsatisfied = [] then Inr (Some asg, stats, g)
      else
        (case py_choice R unsatisfied g of
           Inl e \<Rightarrow> Inl e
         | Inr (clause, g1) \<Rightarrow>
             (case select_variable_probabilistic ops R clause cls asg epsilon g1 of
                Inl e \<Rightarrow> Inl e
              | Inr (var, asg1, g2) \<Rightarrow>
                  (case flip_variable asg1 var of
                     Inl e \<Rightarrow> Inl e
                   | Inr asg2 \<Rightarrow>
                       prob_loop ops R cls epsilon k asg2
                         (stats\<lparr>flips := flips stats + 1\<rparr>) g2))))"

definition prob_sat :: "('f::linorder) float_ops \<Rightarrow> ('g, 'f) rng_ops \<Rightarrow> formula \<Rightarrow> int \<Rightarrow> int \<Rightarrow> 'f \<Rightarrow> ls_stats \<Rightarrow> 'g \<Rightarrow> py_error + (assignment option \<times> ls_stats \<times> 'g)" where
  "prob_sat ops R cls n max_flips epsilon stats g =
     (case initialize_assignment R n g of
        Inl e \<Rightarrow> Inl e
      | Inr (asg, g') \<Rightarrow> prob_loop ops R cls epsilon (nat max_flips) asg stats g')"

definition probsat_run_solver :: "('f::linorder) float_ops \<Rightarrow> ('g, 'f) rng_ops \<Rightarrow> string \<Rightarrow> int \<Rightarrow> 'f \<Rightarrow> int \<Rightarrow> 'g \<Rightarrow> py_error + (result \<times> 'g)" where
  "probsat_run_solver ops R text max_flips epsilon restarts g =
     (case parse_dimacs text of
        Inl e \<Rightarrow> Inl e
      | Inr formula \<Rightarrow>
          (case restart_loop (prob_sat ops R (clauses formula) (num_vars formula) max_flips epsilon)
                  (nat restarts) \<lparr>flips = 0, ls_restarts = 0\<rparr> g of
             Inl e \<Rightarrow> Inl e
           | Inr (best_assignment, stats, g') \<Rightarrow>
               Inr (ls_result ''probsat'' formula best_assignment stats, g')))"

definition probsat_main :: "('f::linorder) float_ops \<Rightarrow> ('g, 'f) rng_ops \<Rightarrow> string \<Rightarrow> int \<Rightarrow> 'f \<Rightarrow> int \<Rightarrow> int option \<Rightarrow> 'g \<Rightarrow> py_error + result" where
  "probsat_main ops R text max_flips epsilon restarts seed g =
     (let g1 = (case seed of None \<Rightarrow> g | Some n \<Rightarrow> rng_seed R n) in
      (case probsat_run_solver ops R text max_flips epsilon restarts g1 of
         Inl e \<Rightarrow> Inl e
       | Inr (res, g2) \<Rightarrow> Inr res))"

section \<open>solvers/cdcl.py\<close>

record cdcl_stats =
  decisions :: int
  conflicts :: int
  learned_clauses :: int
  restarts :: int

text \<open>
  \<open>PriorityQueue\<close>. \<open>heapq\<close> keeps the tuples \<open>(-score, var)\<close> and \<open>heappop\<close> returns
  the least of them, whatever the order they were pushed in. The heap is therefore the list of
  the pairs it holds, written \<open>(score, var)\<close> without the negation (negating a float is
  exact), and \<open>heappop\<close> takes out the pair with the greatest score, the smallest variable
  among equal scores.
\<close>

record 'f priority_queue =
  heap :: "('f \<times> int) list"
  entries :: "(int \<times> 'f) list"

definition heap_le :: "('f::linorder) \<times> int \<Rightarrow> 'f \<times> int \<Rightarrow> bool" where
  "heap_le a b = (fst b < fst a \<or> (fst a = fst b \<and> snd a \<le> snd b))"

fun heap_min :: "('f::linorder) \<times> int \<Rightarrow> ('f \<times> int) list \<Rightarrow> 'f \<times> int" where
  "heap_min best [] = best"
| "heap_min best (x # xs) = (if heap_le best x then heap_min best xs else heap_min x xs)"

definition heappop :: "(('f::linorder) \<times> int) list \<Rightarrow> (('f \<times> int) \<times> ('f \<times> int) list) option" where
  "heappop h = (case h of [] \<Rightarrow> None | x # xs \<Rightarrow> (let m = heap_min x xs in Some (m, remove1 m h)))"

definition pq_push :: "'f priority_queue \<Rightarrow> int \<Rightarrow> 'f \<Rightarrow> 'f priority_queue" where
  "pq_push q var score = \<lparr> heap = heap q @ [(score, var)], entries = AList.update var score (entries q) \<rparr>"

lemma heap_min_mem: "heap_min best xs \<in> set (best # xs)"
  by (induction xs arbitrary: best) auto

lemma heappop_length: "heappop h = Some (m, h') \<Longrightarrow> length h' < length h"
proof -
  assume a: "heappop h = Some (m, h')"
  then obtain x xs where h: "h = x # xs" by (cases h) (auto simp: heappop_def)
  with a have m: "m = heap_min x xs" and h': "h' = remove1 m h"
    by (auto simp: heappop_def Let_def)
  from m h heap_min_mem[of x xs] have "m \<in> set h" by simp
  then have "length (remove1 m h) < length h"
    using length_pos_if_in_set[of m h] by (simp add: length_remove1 del: remove1.simps)
  with h' show ?thesis by simp
qed

text \<open>\<open>PriorityQueue.pop\<close>: the variable returned and the queue as the loop leaves it.\<close>

function pq_pop :: "('f::linorder) priority_queue \<Rightarrow> assignment \<Rightarrow> int option \<times> 'f priority_queue" where
  "pq_pop q asg =
     (case heappop (heap q) of
        None \<Rightarrow> (None, q)
      | Some ((score, var), h') \<Rightarrow>
          (let q' = q\<lparr>heap := h'\<rparr> in
           if map_of asg var \<noteq> None then pq_pop q' asg
           else if map_of (entries q) var \<noteq> Some score then pq_pop q' asg
           else (Some var, q')))"
  by pat_completeness auto
termination
  by (relation "measure (\<lambda>(q, asg). length (heap q))") (auto dest: heappop_length)

definition pq_update :: "'f priority_queue \<Rightarrow> int \<Rightarrow> 'f \<Rightarrow> 'f priority_queue" where
  "pq_update q var score = pq_push q var score"

record 'f solver_state =
  formula :: formula
  assignment :: assignment
  decision_levels :: "(int \<times> int) list"
  reason :: "(int \<times> clause) list"
  level_literals :: "int list"
  watches :: "(int \<times> nat list) list"
  watch_map :: "(nat \<times> int \<times> int) list"
  vsids :: "(int \<times> 'f) list"
  queue :: "'f priority_queue"
  phase :: "(int \<times> bool) list"
  decision_level :: int
  decay :: 'f

text \<open>
  \<open>watches.setdefault(literal, [])\<close>, then append of the clause index unless it is there:
  the body of \<open>add_watch\<close>, on the dictionary.
\<close>

definition watch_add :: "(int \<times> nat list) list \<Rightarrow> int \<Rightarrow> nat \<Rightarrow> (int \<times> nat list) list" where
  "watch_add w literal idx =
     (case map_of w literal of
        None \<Rightarrow> AList.update literal [idx] w
      | Some l \<Rightarrow> (if idx \<in> set l then w else AList.update literal (l @ [idx]) w))"

definition watch_remove :: "(int \<times> nat list) list \<Rightarrow> int \<Rightarrow> nat \<Rightarrow> (int \<times> nat list) list" where
  "watch_remove w literal idx =
     (case map_of w literal of
        None \<Rightarrow> w
      | Some l \<Rightarrow> (if l = [] then w else AList.update literal (remove1 idx l) w))"

definition add_watch :: "'f solver_state \<Rightarrow> int \<Rightarrow> nat \<Rightarrow> 'f solver_state" where
  "add_watch st literal idx = st\<lparr>watches := watch_add (watches st) literal idx\<rparr>"

definition remove_watch :: "'f solver_state \<Rightarrow> int \<Rightarrow> nat \<Rightarrow> 'f solver_state" where
  "remove_watch st literal idx = st\<lparr>watches := watch_remove (watches st) literal idx\<rparr>"

definition update_watch :: "'f solver_state \<Rightarrow> nat \<Rightarrow> int \<Rightarrow> int \<Rightarrow> 'f solver_state" where
  "update_watch st idx old_literal new_literal =
     add_watch (remove_watch st old_literal idx) new_literal idx"

text \<open>The first loop of \<open>initialize_state\<close>, over \<open>enumerate(formula)\<close>.\<close>

fun init_watches :: "nat \<Rightarrow> formula \<Rightarrow> (int \<times> nat list) list \<Rightarrow> (nat \<times> int \<times> int) list \<Rightarrow> py_error + ((int \<times> nat list) list \<times> (nat \<times> int \<times> int) list)" where
  "init_watches idx [] w wm = Inr (w, wm)"
| "init_watches idx ([] # rest) w wm = Inl IndexError"
| "init_watches idx ([a] # rest) w wm =
     init_watches (Suc idx) rest (watch_add w a idx) (AList.update idx (a, a) wm)"
| "init_watches idx ((a # b # more_lits) # rest) w wm =
     init_watches (Suc idx) rest (watch_add (watch_add w a idx) b idx) (AList.update idx (a, b) wm)"

definition bump :: "'f float_ops \<Rightarrow> int \<Rightarrow> (int \<times> 'f) list \<Rightarrow> (int \<times> 'f) list" where
  "bump ops var vs =
     AList.update var (f_add ops (case map_of vs var of None \<Rightarrow> f_zero ops | Some x \<Rightarrow> x) (f_one ops)) vs"

definition initialize_state :: "'f float_ops \<Rightarrow> formula \<Rightarrow> py_error + 'f solver_state" where
  "initialize_state ops fm =
     (case init_watches 0 fm [] [] of
        Inl e \<Rightarrow> Inl e
      | Inr (w, wm) \<Rightarrow>
          (let vs = fold (\<lambda>lit. bump ops \<bar>lit\<bar>) (concat fm) [];
               q = fold (\<lambda>(var, score) q. pq_push q var score) vs \<lparr>heap = [], entries = []\<rparr>
           in Inr \<lparr> formula = fm, assignment = [], decision_levels = [], reason = [],
                    level_literals = [], watches = w, watch_map = wm, vsids = vs, queue = q,
                    phase = map (\<lambda>(var, score). (var, True)) vs, decision_level = 0,
                    decay = f_decay ops \<rparr>))"

definition value_of :: "int \<Rightarrow> assignment \<Rightarrow> bool option" where
  "value_of literal asg =
     (case map_of asg \<bar>literal\<bar> of
        None \<Rightarrow> None
      | Some val \<Rightarrow> Some (if literal > 0 then val else \<not> val))"

text \<open>
  The body of the loop \<open>for clause_idx in watchers\<close> of \<open>propagate\<close>, with the local
  list \<open>queue\<close> as \<open>todo\<close>. It returns the conflict clause, if any, the state and the list.
\<close>

fun visit_watchers :: "'f solver_state \<Rightarrow> int list \<Rightarrow> int \<Rightarrow> nat list \<Rightarrow> py_error + (clause option \<times> 'f solver_state \<times> int list)" where
  "visit_watchers st todo opposite [] = Inr (None, st, todo)"
| "visit_watchers st todo opposite (clause_idx # rest) =
     (if clause_idx \<ge> length (formula st) then Inl IndexError
      else
        (let clause = formula st ! clause_idx in
         (case map_of (watch_map st) clause_idx of
            None \<Rightarrow> Inl KeyError
          | Some (w1, w2) \<Rightarrow>
              (let other = (if w1 = opposite then w2 else w1) in
               if value_of other (assignment st) = Some True then visit_watchers st todo opposite rest
               else
                 (case find (\<lambda>candidate. candidate \<noteq> w1 \<and> candidate \<noteq> w2 \<and>
                                value_of candidate (assignment st) \<noteq> Some False) clause of
                    Some candidate \<Rightarrow>
                      visit_watchers
                        (update_watch
                           (st\<lparr>watch_map :=
                                 AList.update clause_idx
                                   (if w1 = opposite then (candidate, w2) else (w1, candidate))
                                   (watch_map st)\<rparr>)
                           clause_idx opposite candidate)
                        todo opposite rest
                  | None \<Rightarrow>
                      (if value_of other (assignment st) = Some False then Inr (Some clause, st, todo)
                       else
                         (let var = \<bar>other\<bar> in
                          visit_watchers
                            (st\<lparr>assignment := AList.update var (other > 0) (assignment st),
                                 phase := AList.update var (other > 0) (phase st),
                                 decision_levels := AList.update var (decision_level st) (decision_levels st),
                                 reason := AList.update var clause (reason st),
                                 level_literals := level_literals st @ [other]\<rparr>)
                            (todo @ [other]) opposite rest)))))))"



text \<open>
  Termination of \<open>propagate\<close>: a literal joins the list only when its variable, one of a
  watched literal, gets a value it did not have; watched literals are literals of clauses.
\<close>

definition pool :: "'f solver_state \<Rightarrow> int set" where
  "pool st = abs ` (\<Union> (set ` set (formula st)) \<union> (\<Union>(i, w1, w2) \<in> set (watch_map st). {w1, w2}))"

definition unassigned_count :: "'f solver_state \<Rightarrow> nat" where
  "unassigned_count st = card (pool st - fst ` set (assignment st))"

lemma finite_pool: "finite (pool st)"
  by (auto simp: pool_def)

lemma set_update_subset: "set (AList.update k v al) \<subseteq> insert (k, v) (set al)"
  by (induction al) auto

lemma map_of_in_set: "map_of al k = Some v \<Longrightarrow> (k, v) \<in> set al"
  by (rule map_of_SomeD)

lemma visit_watchers_measure:
  "visit_watchers st todo opp ws = Inr (r, st', todo') \<Longrightarrow>
     \<exists>new. todo' = todo @ new \<and> unassigned_count st' + length new \<le> unassigned_count st"
proof (induction ws arbitrary: st todo)
  case Nil
  then show ?case by simp
next
  case (Cons idx ws)
  from Cons.prems have len: "idx < length (formula st)"
    by (auto split: if_splits)
  define cl where "cl = formula st ! idx"
  from Cons.prems len obtain w1 w2 where wm: "map_of (watch_map st) idx = Some (w1, w2)"
    by (cases "map_of (watch_map st) idx") (auto simp: Let_def)
  define other where "other = (if w1 = opp then w2 else w1)"
  have other_pool: "\<bar>other\<bar> \<in> pool st"
    using map_of_SomeD[OF wm] unfolding pool_def other_def by (auto intro!: imageI)
  show ?case
  proof (cases "value_of other (assignment st) = Some True")
    case True
    with Cons.prems len wm have "visit_watchers st todo opp ws = Inr (r, st', todo')"
      by (simp add: Let_def other_def)
    from Cons.IH[OF this] show ?thesis .
  next
    case nt: False
    show ?thesis
    proof (cases "find (\<lambda>candidate. candidate \<noteq> w1 \<and> candidate \<noteq> w2 \<and>
                                value_of candidate (assignment st) \<noteq> Some False) cl")
      case (Some cand)
      define st1 where "st1 = update_watch
                           (st\<lparr>watch_map :=
                                 AList.update idx
                                   (if w1 = opp then (cand, w2) else (w1, cand))
                                   (watch_map st)\<rparr>)
                           idx opp cand"
      from Cons.prems len wm nt Some
      have rec: "visit_watchers st1 todo opp ws = Inr (r, st', todo')"
        by (simp add: Let_def other_def cl_def st1_def)
      from Some have "cand \<in> set cl" by (auto simp: find_Some_iff)
      with len have cand_f: "cand \<in> \<Union> (set ` set (formula st))"
        unfolding cl_def by (auto intro: nth_mem)
      have f1: "formula st1 = formula st" and a1: "assignment st1 = assignment st"
        by (simp_all add: st1_def update_watch_def add_watch_def remove_watch_def)
      have wm1: "watch_map st1 = AList.update idx (if w1 = opp then (cand, w2) else (w1, cand)) (watch_map st)"
        by (simp add: st1_def update_watch_def add_watch_def remove_watch_def)
      have "pool st1 \<subseteq> pool st"
      proof
        fix x assume "x \<in> pool st1"
        then consider (f) l where "l \<in> \<Union> (set ` set (formula st))" "x = \<bar>l\<bar>"
          | (w) i a b where "(i, a, b) \<in> set (watch_map st1)" "x = \<bar>a\<bar> \<or> x = \<bar>b\<bar>"
          unfolding pool_def f1 by auto
        then show "x \<in> pool st"
        proof cases
          case f
          then show ?thesis unfolding pool_def by auto
        next
          case w
          have "set (watch_map st1) \<subseteq> insert (idx, (if w1 = opp then (cand, w2) else (w1, cand))) (set (watch_map st))"
            unfolding wm1 by (rule set_update_subset)
          with w(1)
          have "(i, a, b) = (idx, (if w1 = opp then (cand, w2) else (w1, cand))) \<or> (i, a, b) \<in> set (watch_map st)"
            by blast
          then show ?thesis
          proof
            assume "(i, a, b) \<in> set (watch_map st)"
            with w(2) show ?thesis unfolding pool_def by (auto intro!: imageI)
          next
            assume "(i, a, b) = (idx, (if w1 = opp then (cand, w2) else (w1, cand)))"
            then have "a \<in> {cand, w1, w2}" "b \<in> {cand, w1, w2}" by (auto split: if_splits)
            moreover have "\<bar>w1\<bar> \<in> pool st" "\<bar>w2\<bar> \<in> pool st"
              using map_of_SomeD[OF wm] unfolding pool_def by (auto intro!: imageI)
            moreover have "\<bar>cand\<bar> \<in> pool st" using cand_f unfolding pool_def by auto
            ultimately show ?thesis using w(2) by auto
          qed
        qed
      qed
      then have "unassigned_count st1 \<le> unassigned_count st"
        unfolding unassigned_count_def a1
        by (intro card_mono) (auto simp: finite_pool)
      with Cons.IH[OF rec] show ?thesis by force
    next
      case None
      show ?thesis
      proof (cases "value_of other (assignment st) = Some False")
        case True
        with Cons.prems len wm nt None show ?thesis
          by (simp add: Let_def other_def cl_def)
      next
        case nf: False
        define st1 where "st1 = st\<lparr>assignment := AList.update \<bar>other\<bar> (other > 0) (assignment st),
                                 phase := AList.update \<bar>other\<bar> (other > 0) (phase st),
                                 decision_levels := AList.update \<bar>other\<bar> (decision_level st) (decision_levels st),
                                 reason := AList.update \<bar>other\<bar> cl (reason st),
                                 level_literals := level_literals st @ [other]\<rparr>"
        from Cons.prems len wm nt None nf
        have rec: "visit_watchers st1 (todo @ [other]) opp ws = Inr (r, st', todo')"
          by (simp add: Let_def other_def cl_def st1_def)
        from nt nf have un: "map_of (assignment st) \<bar>other\<bar> = None"
          by (auto simp: value_of_def split: option.splits if_splits)
        then have notin: "\<bar>other\<bar> \<notin> fst ` set (assignment st)"
          by (simp add: map_of_eq_None_iff)
        have p1: "pool st1 = pool st" by (simp add: pool_def st1_def)
        have d1: "fst ` set (assignment st1) = insert \<bar>other\<bar> (fst ` set (assignment st))"
          by (simp add: st1_def AList.dom_update)
        have "pool st1 - fst ` set (assignment st1) = (pool st - fst ` set (assignment st)) - {\<bar>other\<bar>}"
          unfolding p1 d1 by auto
        moreover have "\<bar>other\<bar> \<in> pool st - fst ` set (assignment st)"
          using other_pool notin by simp
        ultimately have "unassigned_count st1 + 1 = unassigned_count st"
          unfolding unassigned_count_def
          using finite_pool[of st]
            card_Suc_Diff1[of "pool st - fst ` set (assignment st)" "\<bar>other\<bar>"]
          by simp
        moreover from Cons.IH[OF rec] obtain new where
          "todo' = (todo @ [other]) @ new" "unassigned_count st' + length new \<le> unassigned_count st1"
          by blast
        ultimately show ?thesis by (intro exI[of _ "other # new"]) simp
      qed
    qed
  qed
qed

function propagate_loop :: "'f solver_state \<Rightarrow> int list \<Rightarrow> py_error + (clause option \<times> 'f solver_state)" where
  "propagate_loop st todo =
     (if todo = [] then Inr (None, st)
      else
        (let literal = last todo;
             opposite = - literal;
             watchers = (case map_of (watches st) opposite of None \<Rightarrow> [] | Some l \<Rightarrow> l)
         in (case visit_watchers st (butlast todo) opposite watchers of
               Inl e \<Rightarrow> Inl e
             | Inr (Some clause, st', todo') \<Rightarrow> Inr (Some clause, st')
             | Inr (None, st', todo') \<Rightarrow> propagate_loop st' todo')))"
  by pat_completeness auto
termination
proof (relation "measures [\<lambda>(st, todo). unassigned_count st, \<lambda>(st, todo). length todo]", goal_cases)
  case 1
  then show ?case by simp
next
  case prems: (2 st todo literal opposite watchers x2 x y st' todo')
  from prems have "visit_watchers st (butlast todo) opposite watchers = Inr (None, st', todo')"
    by simp
  from visit_watchers_measure[OF this] obtain new where
    "todo' = butlast todo @ new" "unassigned_count st' + length new \<le> unassigned_count st"
    by blast
  with prems(1) show ?case by (cases new) auto
qed

definition propagate :: "'f solver_state \<Rightarrow> cdcl_stats \<Rightarrow> py_error + (clause option \<times> 'f solver_state \<times> cdcl_stats)" where
  "propagate st stats =
     (case propagate_loop st (level_literals st) of
        Inl e \<Rightarrow> Inl e
      | Inr (Some clause, st') \<Rightarrow> Inr (Some clause, st', stats\<lparr>conflicts := conflicts stats + 1\<rparr>)
      | Inr (None, st') \<Rightarrow> Inr (None, st', stats))"

text \<open>\<open>state.decision_levels.get(var, default)\<close>.\<close>

definition level_get :: "'f solver_state \<Rightarrow> int \<Rightarrow> int \<Rightarrow> int" where
  "level_get st var dflt = (case map_of (decision_levels st) var of None \<Rightarrow> dflt | Some l \<Rightarrow> l)"

definition count_curr_level :: "'f solver_state \<Rightarrow> clause \<Rightarrow> nat" where
  "count_curr_level st clause =
     length (filter (\<lambda>lit. level_get st \<bar>lit\<bar> (- 1) = decision_level st) clause)"

text \<open>
  \<open>resolve\<close>. The set \<open>present\<close> always holds exactly the elements of the list
  \<open>resolvent\<close>, which has no duplicates, so membership in it is membership in the list and
  the two removals succeed together.
\<close>

definition resolve_first :: "int \<Rightarrow> int \<Rightarrow> clause \<Rightarrow> clause" where
  "resolve_first pivot_var lit resolvent =
     (if \<bar>lit\<bar> = pivot_var then resolvent
      else if - lit \<in> set resolvent then resolvent
      else if lit \<notin> set resolvent then resolvent @ [lit]
      else resolvent)"

definition resolve_second :: "int \<Rightarrow> int \<Rightarrow> clause \<Rightarrow> clause" where
  "resolve_second pivot_var lit resolvent =
     (if \<bar>lit\<bar> = pivot_var then resolvent
      else if - lit \<in> set resolvent then remove1 (- lit) resolvent
      else if lit \<notin> set resolvent then resolvent @ [lit]
      else resolvent)"

definition resolve :: "'f solver_state \<Rightarrow> clause \<Rightarrow> int \<Rightarrow> clause" where
  "resolve st clause pivot_var =
     (case map_of (reason st) pivot_var of
        None \<Rightarrow> clause
      | Some r \<Rightarrow>
          (if r = [] then clause
           else fold (resolve_second pivot_var) r (fold (resolve_first pivot_var) clause [])))"

definition find_pivot :: "'f solver_state \<Rightarrow> clause \<Rightarrow> int option" where
  "find_pivot st learned =
     map_option abs
       (find (\<lambda>assigned_lit. (\<exists>l \<in> set learned. \<bar>l\<bar> = \<bar>assigned_lit\<bar>) \<and>
                 level_get st \<bar>assigned_lit\<bar> (- 1) = decision_level st)
          (rev (level_literals st)))"

text \<open>The \<open>while\<close> loop of \<open>analyze_conflict\<close>; nothing in the code bounds it.\<close>

partial_function (option) analyze_loop :: "'f solver_state \<Rightarrow> clause \<Rightarrow> clause option" where
  "analyze_loop st learned =
     (if count_curr_level st learned > 1 then
        (case find_pivot st learned of
           None \<Rightarrow> Some learned
         | Some pivot_var \<Rightarrow> analyze_loop st (resolve st learned pivot_var))
      else Some learned)"

definition backjump_level :: "'f solver_state \<Rightarrow> clause \<Rightarrow> int" where
  "backjump_level st learned =
     fold (\<lambda>lit backjump.
             (let lvl = level_get st \<bar>lit\<bar> 0 in
              if lvl \<noteq> decision_level st \<and> lvl > backjump then lvl else backjump))
       learned 0"

definition analyze_conflict :: "'f solver_state \<Rightarrow> clause \<Rightarrow> (clause \<times> int) option" where
  "analyze_conflict st conflict =
     (case analyze_loop st conflict of
        None \<Rightarrow> None
      | Some learned \<Rightarrow> Some (learned, backjump_level st learned))"

definition unassign :: "int \<Rightarrow> 'f solver_state \<Rightarrow> 'f solver_state" where
  "unassign var st =
     st\<lparr>assignment := AList.delete var (assignment st),
        decision_levels := AList.delete var (decision_levels st),
        reason := AList.delete var (reason st)\<rparr>"

definition backtrack :: "'f solver_state \<Rightarrow> int \<Rightarrow> 'f solver_state" where
  "backtrack st level =
     (let to_remove = map fst (filter (\<lambda>(var, dl). dl > level) (decision_levels st));
          st1 = fold unassign to_remove st;
          st2 = st1\<lparr>decision_level := level\<rparr>
      in st2\<lparr>level_literals := filter (\<lambda>lit. level_get st2 \<bar>lit\<bar> (- 1) = level) (level_literals st2)\<rparr>)"

definition bump_var :: "'f float_ops \<Rightarrow> int \<Rightarrow> 'f solver_state \<Rightarrow> 'f solver_state" where
  "bump_var ops lit st =
     (let var = \<bar>lit\<bar>;
          score = f_add ops (case map_of (vsids st) var of None \<Rightarrow> f_zero ops | Some x \<Rightarrow> x) (f_one ops)
      in st\<lparr>vsids := AList.update var score (vsids st), queue := pq_update (queue st) var score\<rparr>)"

definition learn_clause :: "'f float_ops \<Rightarrow> 'f solver_state \<Rightarrow> clause \<Rightarrow> cdcl_stats \<Rightarrow> py_error + ('f solver_state \<times> cdcl_stats)" where
  "learn_clause ops st clause stats =
     (let st1 = st\<lparr>formula := formula st @ [clause]\<rparr>;
          idx = length (formula st1) - 1
      in (case clause of
            [] \<Rightarrow> Inl IndexError
          | a # rest \<Rightarrow>
              (let st2 = (case rest of
                            [] \<Rightarrow> add_watch (st1\<lparr>watch_map := AList.update idx (a, a) (watch_map st1)\<rparr>) a idx
                          | b # more_lits \<Rightarrow>
                              add_watch
                                (add_watch (st1\<lparr>watch_map := AList.update idx (a, b) (watch_map st1)\<rparr>) a idx)
                                b idx)
               in Inr (fold (bump_var ops) clause st2,
                       stats\<lparr>learned_clauses := learned_clauses stats + 1\<rparr>))))"

text \<open>
  \<open>decay_scores\<close> visits every key of \<open>vsids\<close> once and writes only that key, so the
  score it reads is the one the dictionary had when the loop began.
\<close>

definition decay_var :: "'f float_ops \<Rightarrow> int \<times> 'f \<Rightarrow> 'f solver_state \<Rightarrow> 'f solver_state" where
  "decay_var ops item st =
     (case item of (var, score) \<Rightarrow>
        (let score' = f_mul ops score (decay st)
         in st\<lparr>vsids := AList.update var score' (vsids st), queue := pq_update (queue st) var score'\<rparr>))"

definition decay_scores :: "'f float_ops \<Rightarrow> 'f solver_state \<Rightarrow> 'f solver_state" where
  "decay_scores ops st = fold (decay_var ops) (vsids st) st"

definition select_branch_literal :: "('f::linorder) solver_state \<Rightarrow> int option \<times> 'f solver_state" where
  "select_branch_literal st =
     (case pq_pop (queue st) (assignment st) of
        (None, q) \<Rightarrow> (None, st\<lparr>queue := q\<rparr>)
      | (Some var, q) \<Rightarrow>
          (let sign = (case map_of (phase st) var of None \<Rightarrow> True | Some b \<Rightarrow> b)
           in (Some (if sign then var else - var), st\<lparr>queue := q\<rparr>)))"

text \<open>
  One round of the loop \<open>while True\<close> of \<open>cdcl\<close> either returns or goes on with new
  values of the state, the statistics, \<open>restart_limit\<close> and \<open>conflicts_since_restart\<close>.
  What \<open>cdcl\<close> returns is kept with the state and the statistics it has mutated.
\<close>

datatype ('a, 'b) loop_step = Return 'a | Continue 'b

definition assign_at_level :: "'f solver_state \<Rightarrow> int \<Rightarrow> clause \<Rightarrow> 'f solver_state" where
  "assign_at_level st literal why =
     (let var = \<bar>literal\<bar> in
      st\<lparr>assignment := AList.update var (literal > 0) (assignment st),
         decision_levels := AList.update var (decision_level st) (decision_levels st),
         reason := AList.update var why (reason st),
         phase := AList.update var (literal > 0) (phase st),
         level_literals := level_literals st @ [literal]\<rparr>)"

definition cdcl_conflict :: "('f::linorder) float_ops \<Rightarrow> 'f solver_state \<Rightarrow> cdcl_stats \<Rightarrow> int \<Rightarrow> int \<Rightarrow> clause \<Rightarrow>
    (py_error + (bool \<times> 'f solver_state \<times> cdcl_stats, 'f solver_state \<times> cdcl_stats \<times> int \<times> int) loop_step) option" where
  "cdcl_conflict ops st stats restart_limit conflicts_since_restart conflict =
     (let stats1 = stats\<lparr>conflicts := conflicts stats + 1\<rparr>;
          csr = conflicts_since_restart + 1
      in if decision_level st = 0 then Some (Inr (Return (False, st, stats1)))
         else
           (case analyze_conflict st conflict of
              None \<Rightarrow> None
            | Some (clause, backjump) \<Rightarrow>
                (case learn_clause ops st clause stats1 of
                   Inl e \<Rightarrow> Some (Inl e)
                 | Inr (st1, stats2) \<Rightarrow>
                     (let asserting = find (\<lambda>lit. level_get st1 \<bar>lit\<bar> (- 1) = decision_level st1) clause;
                          st2 = decay_scores ops (backtrack st1 backjump);
                          st3 = (case asserting of
                                   None \<Rightarrow> st2
                                 | Some lit \<Rightarrow> assign_at_level st2 lit clause)
                      in if csr \<ge> restart_limit then
                           Some (Inr (Continue (backtrack st3 0,
                                                stats2\<lparr>restarts := restarts stats2 + 1\<rparr>,
                                                f_grow ops restart_limit, 0)))
                         else Some (Inr (Continue (st3, stats2, restart_limit, csr)))))))"

definition cdcl_decide :: "('f::linorder) solver_state \<Rightarrow> cdcl_stats \<Rightarrow> int \<Rightarrow> int \<Rightarrow>
    (bool \<times> 'f solver_state \<times> cdcl_stats, 'f solver_state \<times> cdcl_stats \<times> int \<times> int) loop_step" where
  "cdcl_decide st stats restart_limit conflicts_since_restart =
     (case select_branch_literal st of
        (None, st1) \<Rightarrow> Return (True, st1, stats)
      | (Some literal, st1) \<Rightarrow>
          Continue (assign_at_level (st1\<lparr>decision_level := decision_level st1 + 1\<rparr>) literal [],
                    stats\<lparr>decisions := decisions stats + 1\<rparr>,
                    restart_limit, conflicts_since_restart))"

text \<open>\<open>if conflict:\<close> is the truth value of an optional list.\<close>

definition cdcl_iteration :: "('f::linorder) float_ops \<Rightarrow> 'f solver_state \<Rightarrow> cdcl_stats \<Rightarrow> int \<Rightarrow> int \<Rightarrow>
    (py_error + (bool \<times> 'f solver_state \<times> cdcl_stats, 'f solver_state \<times> cdcl_stats \<times> int \<times> int) loop_step) option" where
  "cdcl_iteration ops st stats restart_limit conflicts_since_restart =
     (case propagate st stats of
        Inl e \<Rightarrow> Some (Inl e)
      | Inr (conflict, st1, stats1) \<Rightarrow>
          (case conflict of
             None \<Rightarrow> Some (Inr (cdcl_decide st1 stats1 restart_limit conflicts_since_restart))
           | Some c \<Rightarrow>
               (if c \<noteq> [] then cdcl_conflict ops st1 stats1 restart_limit conflicts_since_restart c
                else Some (Inr (cdcl_decide st1 stats1 restart_limit conflicts_since_restart)))))"

partial_function (option) cdcl_loop :: "('f::linorder) float_ops \<Rightarrow> 'f solver_state \<Rightarrow> cdcl_stats \<Rightarrow> int \<Rightarrow> int \<Rightarrow>
    (py_error + (bool \<times> 'f solver_state \<times> cdcl_stats)) option" where
  "cdcl_loop ops st stats restart_limit conflicts_since_restart =
     (case cdcl_iteration ops st stats restart_limit conflicts_since_restart of
        None \<Rightarrow> None
      | Some (Inl e) \<Rightarrow> Some (Inl e)
      | Some (Inr (Return r)) \<Rightarrow> Some (Inr r)
      | Some (Inr (Continue (st', stats', restart_limit', conflicts_since_restart'))) \<Rightarrow>
          cdcl_loop ops st' stats' restart_limit' conflicts_since_restart')"

definition cdcl :: "('f::linorder) float_ops \<Rightarrow> 'f solver_state \<Rightarrow> cdcl_stats \<Rightarrow> (py_error + (bool \<times> 'f solver_state \<times> cdcl_stats)) option" where
  "cdcl ops st stats = cdcl_loop ops st stats 100 0"

text \<open>The loop of \<open>run_solver\<close> over the clauses; \<open>None\<close> is its early return.\<close>

fun unit_loop :: "'f solver_state \<Rightarrow> formula \<Rightarrow> 'f solver_state option" where
  "unit_loop st [] = Some st"
| "unit_loop st (clause # rest) =
     (case clause of
        [lit] \<Rightarrow>
          (case map_of (assignment st) \<bar>lit\<bar> of
             Some val \<Rightarrow> (if val \<noteq> (lit > 0) then None else unit_loop st rest)
           | None \<Rightarrow> unit_loop (assign_at_level st lit []) rest)
      | _ \<Rightarrow> unit_loop st rest)"

definition cdcl_result :: "bool \<Rightarrow> cdcl_stats \<Rightarrow> assignment \<Rightarrow> 'f solver_state \<Rightarrow> result" where
  "cdcl_result sat stats asg st =
     [(''solver'', PStr ''cdcl''),
      (''status'', PStr (if sat then ''SAT'' else ''UNSAT'')),
      (''decisions'', PInt (decisions stats)),
      (''conflicts'', PInt (conflicts stats)),
      (''learned_clauses'', PInt (learned_clauses stats)),
      (''restarts'', PInt (restarts stats)),
      (''assignment'', PAssignment asg),
      (''num_clauses'', PInt (int (length (formula st))))]"

definition zero_stats :: cdcl_stats where
  "zero_stats = \<lparr>decisions = 0, conflicts = 0, learned_clauses = 0, restarts = 0\<rparr>"

definition cdcl_solve :: "('f::linorder) float_ops \<Rightarrow> formula \<Rightarrow> (py_error + result) option" where
  "cdcl_solve ops fm =
     (case initialize_state ops fm of
        Inl e \<Rightarrow> Some (Inl e)
      | Inr st0 \<Rightarrow>
          (case unit_loop st0 (formula st0) of
             None \<Rightarrow> Some (Inr (cdcl_result False zero_stats [] st0))
           | Some st1 \<Rightarrow>
               (case propagate st1 zero_stats of
                  Inl e \<Rightarrow> Some (Inl e)
                | Inr (Some c, st2, stats2) \<Rightarrow> Some (Inr (cdcl_result False zero_stats [] st2))
                | Inr (None, st2, stats2) \<Rightarrow>
                    (case cdcl ops st2 stats2 of
                       None \<Rightarrow> None
                     | Some (Inl e) \<Rightarrow> Some (Inl e)
                     | Some (Inr (sat, st3, stats3)) \<Rightarrow>
                         Some (Inr (cdcl_result sat stats3 (if sat then assignment st3 else []) st3))))))"

definition cdcl_run_solver :: "('f::linorder) float_ops \<Rightarrow> string \<Rightarrow> (py_error + result) option" where
  "cdcl_run_solver ops text =
     (case parse_dimacs text of
        Inl e \<Rightarrow> Some (Inl e)
      | Inr f \<Rightarrow> cdcl_solve ops (clauses f))"


declare cdcl_loop.simps [code]
declare analyze_loop.simps [code]

section \<open>Parser facts\<close>

lemma split_lines_append:
  "split_lines cur (a @ CHR 0x0A # b) = split_lines cur a @ split_lines [] b"
  by (induction a arbitrary: cur) auto

lemma file_lines_append:
  "file_lines (a @ CHR 0x0A # b) = file_lines a @ file_lines b"
  by (simp add: file_lines_def split_lines_append)

lemma parse_lines_append:
  "parse_lines st (l1 @ l2) =
     (case parse_lines st l1 of Inl e \<Rightarrow> Inl e | Inr st' \<Rightarrow> parse_lines st' l2)"
  by (induction l1 arbitrary: st) (auto split: sum.splits)

text \<open>What a line adds to the clause list does not depend on the clauses read before.\<close>

lemma parse_line_clauses:
  assumes "parse_line (nv, nc, cls) raw = Inr (nv', nc', cls')"
  shows "\<exists>new. cls' = cls @ new \<and> length new \<le> 1 \<and> [] \<notin> set new \<and>
           (\<forall>nv0 nc0 cls0. \<exists>nv1 nc1. parse_line (nv0, nc0, cls0) raw = Inr (nv1, nc1, cls0 @ new))"
  using assms
  by (auto simp: parse_line_def Let_def split: if_splits sum.splits)

lemma parse_lines_clauses:
  assumes "parse_lines (nv, nc, cls) ls = Inr (nv', nc', cls')"
  shows "\<exists>new. cls' = cls @ new \<and> [] \<notin> set new \<and>
           (\<forall>nv0 nc0 cls0. \<exists>nv1 nc1. parse_lines (nv0, nc0, cls0) ls = Inr (nv1, nc1, cls0 @ new))"
  using assms
proof (induction ls arbitrary: nv nc cls)
  case Nil
  then show ?case by auto
next
  case (Cons raw ls)
  from Cons.prems obtain nv1 nc1 cls1 where
    pl: "parse_line (nv, nc, cls) raw = Inr (nv1, nc1, cls1)"
    and rest: "parse_lines (nv1, nc1, cls1) ls = Inr (nv', nc', cls')"
    by (auto split: sum.splits)
  from parse_line_clauses[OF pl] obtain new1 where
    n1: "cls1 = cls @ new1" "[] \<notin> set new1"
    "\<And>nv0 nc0 cls0. \<exists>nva nca. parse_line (nv0, nc0, cls0) raw = Inr (nva, nca, cls0 @ new1)"
    by blast
  from Cons.IH[OF rest] obtain new2 where
    n2: "cls' = cls1 @ new2" "[] \<notin> set new2"
    "\<And>nv0 nc0 cls0. \<exists>nva nca. parse_lines (nv0, nc0, cls0) ls = Inr (nva, nca, cls0 @ new2)"
    by blast
  have "\<exists>nva nca. parse_lines (nv0, nc0, cls0) (raw # ls) = Inr (nva, nca, cls0 @ (new1 @ new2))"
    for nv0 nc0 cls0
  proof -
    from n1(3)[of nv0 nc0 cls0] obtain a b where
      "parse_line (nv0, nc0, cls0) raw = Inr (a, b, cls0 @ new1)" by blast
    moreover from n2(3)[of a b "cls0 @ new1"] obtain c d where
      "parse_lines (a, b, cls0 @ new1) ls = Inr (c, d, (cls0 @ new1) @ new2)" by blast
    ultimately show ?thesis by simp
  qed
  with n1 n2 show ?case by (intro exI[of _ "new1 @ new2"]) auto
qed

lemma parse_dimacs_clauses:
  "parse_dimacs text = Inr f \<longleftrightarrow>
     (\<exists>nv nc cls. parse_lines (0, 0, []) (file_lines text) = Inr (nv, nc, cls) \<and>
        f = \<lparr>num_vars = nv, num_clauses = (if nc = 0 then int (length cls) else nc), clauses = cls\<rparr>)"
  by (auto simp: parse_dimacs_def split: sum.splits prod.splits)

lemma parse_dimacs_no_empty_clause:
  assumes "parse_dimacs text = Inr f"
  shows "[] \<notin> set (clauses f)"
proof -
  from assms obtain nv nc cls where
    pl: "parse_lines (0, 0, []) (file_lines text) = Inr (nv, nc, cls)" and f: "clauses f = cls"
    unfolding parse_dimacs_clauses by auto
  from parse_lines_clauses[OF pl] f show ?thesis by auto
qed

lemma parse_dimacs_append:
  assumes "parse_dimacs a = Inr fa" and "parse_dimacs b = Inr fb"
  shows "\<exists>f. parse_dimacs (a @ [CHR 0x0A] @ b) = Inr f \<and> clauses f = clauses fa @ clauses fb"
proof -
  from assms(1) obtain nva nca where
    pa: "parse_lines (0, 0, []) (file_lines a) = Inr (nva, nca, clauses fa)"
    unfolding parse_dimacs_clauses by auto
  from assms(2) obtain nvb ncb where
    pb: "parse_lines (0, 0, []) (file_lines b) = Inr (nvb, ncb, clauses fb)"
    unfolding parse_dimacs_clauses by auto
  from parse_lines_clauses[OF pb] obtain nv1 nc1 where
    "parse_lines (nva, nca, clauses fa) (file_lines b) = Inr (nv1, nc1, clauses fa @ clauses fb)"
    by fastforce
  with pa have "parse_lines (0, 0, []) (file_lines (a @ [CHR 0x0A] @ b)) = Inr (nv1, nc1, clauses fa @ clauses fb)"
    by (simp add: file_lines_append parse_lines_append)
  then show ?thesis by (simp add: parse_dimacs_def)
qed

section \<open>DPLL on a formula with an empty clause\<close>

lemma find_unit_empty_clause:
  "[] \<in> set cls \<Longrightarrow> find_unit asg cls \<noteq> NoUnit"
proof (induction cls)
  case Nil
  then show ?case by simp
next
  case (Cons c cls)
  show ?case
  proof (cases "c = []")
    case True
    then show ?thesis by simp
  next
    case False
    with Cons have "find_unit asg cls \<noteq> NoUnit" by simp
    then show ?thesis by (auto split: prod.splits)
  qed
qed

lemma assign_literal_keeps_empty:
  assumes "assign_literal cls asg l = (cls', conflict, asg')" and "[] \<in> set cls"
  shows "[] \<in> set cls'"
  using assign_literal_cases[OF assms(1)] assms(2) by force

lemma unit_propagate_empty_clause:
  "[] \<in> set cls \<Longrightarrow> fst (snd (unit_propagate cls asg stats))"
proof (induction cls asg stats rule: unit_propagate.induct)
  case (1 current asg stats)
  show ?case
  proof (cases "find_unit asg current")
    case Conflict
    then show ?thesis by simp
  next
    case NoUnit
    with find_unit_empty_clause[OF "1.prems"] show ?thesis by simp
  next
    case (Unit l)
    obtain c1 cf a1 where al: "assign_literal current asg l = (c1, cf, a1)"
      by (cases "assign_literal current asg l")
    show ?thesis
    proof (cases cf)
      case True
      with Unit al show ?thesis by (simp add: Let_def)
    next
      case False
      from assign_literal_keeps_empty[OF al "1.prems"] have "[] \<in> set c1" .
      from "1.IH"[OF Unit refl al[symmetric] refl False this] Unit al False
      show ?thesis by (simp add: Let_def)
    qed
  qed
qed

lemma dpll_empty_clause:
  assumes "[] \<in> set cls"
  shows "\<exists>asg' stats'. dpll ops cls asg stats = Inr (False, asg', stats')"
proof -
  obtain cur cf a1 s1 where up: "unit_propagate cls asg stats = (cur, cf, a1, s1)"
    by (cases "unit_propagate cls asg stats")
  with unit_propagate_empty_clause[OF assms, of asg stats] have cf by simp
  with up show ?thesis by (subst dpll.simps) simp
qed


section \<open>Local search on a formula without clauses\<close>

lemma walk_loop_no_clauses:
  "0 < k \<Longrightarrow> walk_loop R [] noise k asg stats g = Inr (Some asg, stats, g)"
  by (cases k) (simp_all add: unsatisfied_clauses_def)

lemma prob_loop_no_clauses:
  "0 < k \<Longrightarrow> prob_loop ops R [] epsilon k asg stats g = Inr (Some asg, stats, g)"
  by (cases k) (simp_all add: unsatisfied_clauses_def)

lemma initialize_assignment_zero: "initialize_assignment R 0 g = Inr ([], g)"
  by (simp add: initialize_assignment_def py_range_def)

lemma parse_empty_formula:
  "parse_dimacs ''p cnf 0 0'' = Inr \<lparr>num_vars = 0, num_clauses = 0, clauses = []\<rparr>"
  by code_simp

section \<open>The claims\<close>

text \<open>
  C3. A formula with an empty clause is reported UNSAT by DPLL-JW and CDCL.
  As stated for DIMACS input this fails: the parser drops a clause line that holds nothing
  but the terminator, so the text below is the empty formula for both solvers, and both
  answer SAT.
\<close>

theorem C3_terminator_only_line_is_sat:
  "dpll_run_solver exact_ops ''p cnf 1 1\<newline>0\<newline>'' =
     Inr [(''solver'', PStr ''dpll_jw''), (''status'', PStr ''SAT''),
          (''decisions'', PInt 0), (''unit_propagations'', PInt 0),
          (''pure_eliminations'', PInt 0), (''assignment'', PAssignment []),
          (''num_vars'', PInt 1), (''num_clauses'', PInt 1)]
   \<and> cdcl_run_solver exact_ops ''p cnf 1 1\<newline>0\<newline>'' =
     Some (Inr [(''solver'', PStr ''cdcl''), (''status'', PStr ''SAT''),
                (''decisions'', PInt 0), (''conflicts'', PInt 0),
                (''learned_clauses'', PInt 0), (''restarts'', PInt 0),
                (''assignment'', PAssignment []), (''num_clauses'', PInt 0)])"
  by code_simp

text \<open>
  C3, as the code has it: no parsed formula contains an empty clause (the guard
  \<open>if literals\<close> of the parser), and \<open>dpll\<close> called on a clause list that does contain
  one returns \<open>False\<close>, from any assignment.
\<close>

theorem C3_empty_clause:
  "(parse_dimacs text = Inr f \<longrightarrow> [] \<notin> set (clauses f)) \<and>
   ([] \<in> set cls \<longrightarrow> (\<exists>asg' stats'. dpll ops cls asg stats = Inr (False, asg', stats')))"
  using parse_dimacs_no_empty_clause dpll_empty_clause by blast

theorem C3_empty_clause_witness:
  "parse_dimacs ''p cnf 1 1\<newline>0\<newline>'' = Inr \<lparr>num_vars = 1, num_clauses = 1, clauses = []\<rparr> \<and>
   [] \<notin> set (clauses \<lparr>num_vars = 1, num_clauses = 1, clauses = []\<rparr>) \<and>
   [] \<in> set [[], [1 :: int]] \<and>
   (\<exists>asg' stats'. dpll exact_ops [[], [1]] []
        \<lparr>dpll_decisions = 0, unit_propagations = 0, pure_eliminations = 0\<rparr> = Inr (False, asg', stats'))"
proof -
  have p: "parse_dimacs ''p cnf 1 1\<newline>0\<newline>'' = Inr \<lparr>num_vars = 1, num_clauses = 1, clauses = []\<rparr>"
    by code_simp
  have m: "[] \<in> set [[], [1 :: int]]" by simp
  from C3_empty_clause[of "''p cnf 1 1\<newline>0\<newline>''" "\<lparr>num_vars = 1, num_clauses = 1, clauses = []\<rparr>"
      "[[], [1]]" exact_ops "[]" "\<lparr>dpll_decisions = 0, unit_propagations = 0, pure_eliminations = 0\<rparr>"] p m
  show ?thesis by blast
qed

text \<open>
  C4. On the empty formula \<open>p cnf 0 0\<close> every solver returns SAT with an empty
  assignment. DPLL-JW and CDCL do. WalkSAT and probSAT find the empty assignment at once,
  and then report UNKNOWN: \<open>run_solver\<close> tests the truth value of the dictionary, and the
  empty dictionary is false. The runs below take the default options (10000 flips, one
  restart), any noise, any generator.
\<close>

theorem C4_empty_formula:
  "dpll_run_solver exact_ops ''p cnf 0 0'' =
     Inr [(''solver'', PStr ''dpll_jw''), (''status'', PStr ''SAT''),
          (''decisions'', PInt 0), (''unit_propagations'', PInt 0),
          (''pure_eliminations'', PInt 0), (''assignment'', PAssignment []),
          (''num_vars'', PInt 0), (''num_clauses'', PInt 0)] \<and>
   cdcl_run_solver exact_ops ''p cnf 0 0'' =
     Some (Inr [(''solver'', PStr ''cdcl''), (''status'', PStr ''SAT''),
                (''decisions'', PInt 0), (''conflicts'', PInt 0),
                (''learned_clauses'', PInt 0), (''restarts'', PInt 0),
                (''assignment'', PAssignment []), (''num_clauses'', PInt 0)]) \<and>
   walksat_run_solver R ''p cnf 0 0'' 10000 noise 1 g =
     Inr ([(''solver'', PStr ''walksat''), (''status'', PStr ''UNKNOWN''),
           (''flips'', PInt 0), (''restarts'', PInt 0),
           (''num_vars'', PInt 0), (''num_clauses'', PInt 0),
           (''assignment'', PAssignment [])], g) \<and>
   probsat_run_solver ops R ''p cnf 0 0'' 10000 epsilon 1 g =
     Inr ([(''solver'', PStr ''probsat''), (''status'', PStr ''UNKNOWN''),
           (''flips'', PInt 0), (''restarts'', PInt 0),
           (''num_vars'', PInt 0), (''num_clauses'', PInt 0),
           (''assignment'', PAssignment [])], g)"
proof -
  have d: "dpll_run_solver exact_ops ''p cnf 0 0'' =
     Inr [(''solver'', PStr ''dpll_jw''), (''status'', PStr ''SAT''),
          (''decisions'', PInt 0), (''unit_propagations'', PInt 0),
          (''pure_eliminations'', PInt 0), (''assignment'', PAssignment []),
          (''num_vars'', PInt 0), (''num_clauses'', PInt 0)]"
    by code_simp
  have c: "cdcl_run_solver exact_ops ''p cnf 0 0'' =
     Some (Inr [(''solver'', PStr ''cdcl''), (''status'', PStr ''SAT''),
                (''decisions'', PInt 0), (''conflicts'', PInt 0),
                (''learned_clauses'', PInt 0), (''restarts'', PInt 0),
                (''assignment'', PAssignment []), (''num_clauses'', PInt 0)])"
    by code_simp
  have w: "walk_sat R [] 0 10000 noise stats g = Inr (Some [], stats, g)" for stats
    by (simp add: walk_sat_def initialize_assignment_zero walk_loop_no_clauses)
  have p: "prob_sat ops R [] 0 10000 epsilon stats g = Inr (Some [], stats, g)" for stats
    by (simp add: prob_sat_def initialize_assignment_zero prob_loop_no_clauses)
  have "walksat_run_solver R ''p cnf 0 0'' 10000 noise 1 g =
     Inr (ls_result ''walksat'' \<lparr>num_vars = 0, num_clauses = 0, clauses = []\<rparr> (Some [])
            \<lparr>flips = 0, ls_restarts = 0\<rparr>, g)"
    by (simp add: walksat_run_solver_def parse_empty_formula w)
  moreover have "probsat_run_solver ops R ''p cnf 0 0'' 10000 epsilon 1 g =
     Inr (ls_result ''probsat'' \<lparr>num_vars = 0, num_clauses = 0, clauses = []\<rparr> (Some [])
            \<lparr>flips = 0, ls_restarts = 0\<rparr>, g)"
    by (simp add: probsat_run_solver_def parse_empty_formula p)
  ultimately show ?thesis using d c by (simp add: ls_result_def)
qed

text \<open>
  C5. Every result record has the fields \<open>num_vars\<close> and \<open>num_clauses\<close>, the latter
  the number of clauses parsed. The records of DPLL-JW, WalkSAT and probSAT have both; the
  record of CDCL has no \<open>num_vars\<close>, and its \<open>num_clauses\<close> counts the learned clauses
  too (five for the second input, which has four).
\<close>

theorem C5_cdcl_record_fields:
  "cdcl_run_solver exact_ops ''p cnf 1 1\<newline>1 0\<newline>'' =
     Some (Inr [(''solver'', PStr ''cdcl''), (''status'', PStr ''SAT''),
                (''decisions'', PInt 0), (''conflicts'', PInt 0),
                (''learned_clauses'', PInt 0), (''restarts'', PInt 0),
                (''assignment'', PAssignment [(1, True)]), (''num_clauses'', PInt 1)]) \<and>
   dpll_run_solver exact_ops ''p cnf 1 1\<newline>1 0\<newline>'' =
     Inr [(''solver'', PStr ''dpll_jw''), (''status'', PStr ''SAT''),
          (''decisions'', PInt 0), (''unit_propagations'', PInt 1),
          (''pure_eliminations'', PInt 0), (''assignment'', PAssignment [(1, True)]),
          (''num_vars'', PInt 1), (''num_clauses'', PInt 1)] \<and>
   cdcl_run_solver exact_ops ''p cnf 2 4\<newline>1 2 0\<newline>-1 -2 0\<newline>1 -2 0\<newline>-1 2 0\<newline>'' =
     Some (Inr [(''solver'', PStr ''cdcl''), (''status'', PStr ''UNSAT''),
                (''decisions'', PInt 1), (''conflicts'', PInt 4),
                (''learned_clauses'', PInt 1), (''restarts'', PInt 0),
                (''assignment'', PAssignment []), (''num_clauses'', PInt 5)])"
  by code_simp

text \<open>
  C6. A clause whose literals are split over several lines parses as the same clause
  written on one line. It does not: each line is a clause of its own.
\<close>

theorem C6_split_clause_is_two_clauses:
  "parse_dimacs ''1 2\<newline>3 0\<newline>'' = Inr \<lparr>num_vars = 0, num_clauses = 2, clauses = [[1, 2], [3]]\<rparr> \<and>
   parse_dimacs ''1 2 3 0\<newline>'' = Inr \<lparr>num_vars = 0, num_clauses = 1, clauses = [[1, 2, 3]]\<rparr>"
  by code_simp

text \<open>
  C9. Two WalkSAT runs, or two probSAT runs, with the same seed, input and options give
  the same result record: once \<open>--seed\<close> is given, the result does not depend on the state
  \<open>g\<close> or \<open>g'\<close> the global generator had when the process started.
\<close>

theorem C9_seeded_runs_agree:
  "walksat_main R text max_flips noise n (Some seed) g =
     walksat_main R text max_flips noise n (Some seed) g' \<and>
   probsat_main ops R text max_flips epsilon n (Some seed) g =
     probsat_main ops R text max_flips epsilon n (Some seed) g'"
  by (simp add: walksat_main_def probsat_main_def)

section \<open>The Sudoku encoder\<close>

definition cell_var :: "int \<Rightarrow> bool" where
  "cell_var l = (\<exists>r c v. 0 \<le> r \<and> r \<le> 8 \<and> 0 \<le> c \<and> c \<le> 8 \<and> 1 \<le> v \<and> v \<le> 9 \<and> \<bar>l\<bar> = var_index r c v)"

lemma var_index_bounds:
  "0 \<le> r \<Longrightarrow> r \<le> 8 \<Longrightarrow> 0 \<le> c \<Longrightarrow> c \<le> 8 \<Longrightarrow> 1 \<le> v \<Longrightarrow> v \<le> 9 \<Longrightarrow>
     1 \<le> var_index r c v \<and> var_index r c v \<le> 729"
  by (simp add: var_index_def SIZE_def)

lemma cell_var_pos:
  "0 \<le> r \<Longrightarrow> r \<le> 8 \<Longrightarrow> 0 \<le> c \<Longrightarrow> c \<le> 8 \<Longrightarrow> 1 \<le> v \<Longrightarrow> v \<le> 9 \<Longrightarrow> cell_var (var_index r c v)"
  unfolding cell_var_def using var_index_bounds[of r c v] by (intro exI[of _ r] exI[of _ c] exI[of _ v]) simp

lemma cell_var_neg:
  "0 \<le> r \<Longrightarrow> r \<le> 8 \<Longrightarrow> 0 \<le> c \<Longrightarrow> c \<le> 8 \<Longrightarrow> 1 \<le> v \<Longrightarrow> v \<le> 9 \<Longrightarrow> cell_var (- var_index r c v)"
  unfolding cell_var_def using var_index_bounds[of r c v] by (intro exI[of _ r] exI[of _ c] exI[of _ v]) simp

lemma cell_var_range: "cell_var l \<Longrightarrow> 1 \<le> \<bar>l\<bar> \<and> \<bar>l\<bar> \<le> 729"
  unfolding cell_var_def using var_index_bounds by metis

lemma cell_clauses_vars: "cl \<in> set cell_clauses \<Longrightarrow> l \<in> set cl \<Longrightarrow> cell_var l"
  unfolding cell_clauses_def py_range_def DIGITS_def SIZE_def
  by (auto split: if_splits simp: cell_var_pos cell_var_neg)

lemma row_clauses_vars: "cl \<in> set row_clauses \<Longrightarrow> l \<in> set cl \<Longrightarrow> cell_var l"
  unfolding row_clauses_def py_range_def DIGITS_def SIZE_def
  by (auto split: if_splits simp: cell_var_pos cell_var_neg)

lemma column_clauses_vars: "cl \<in> set column_clauses \<Longrightarrow> l \<in> set cl \<Longrightarrow> cell_var l"
  unfolding column_clauses_def py_range_def DIGITS_def SIZE_def
  by (auto split: if_splits simp: cell_var_pos cell_var_neg)

lemma box_origins_set: "set box_origins = {0, 3, 6}"
  unfolding box_origins_def py_range_def SIZE_def BOX_def
  by (simp add: upto_rec1)

lemma box_cells_length: "length (box_cells br bc) = 9"
  unfolding box_cells_def py_range_def BOX_def
  by (simp add: upto_rec1)

lemma box_cells_set:
  "(r, c) \<in> set (box_cells br bc) \<Longrightarrow> br \<le> r \<and> r \<le> br + 2 \<and> bc \<le> c \<and> c \<le> bc + 2"
  unfolding box_cells_def py_range_def BOX_def by auto

lemma box_cells_nth:
  assumes "br \<in> {0, 3, 6}" "bc \<in> {0, 3, 6}" "k < 9" "box_cells br bc ! k = (r, c)"
  shows "0 \<le> r \<and> r \<le> 8 \<and> 0 \<le> c \<and> c \<le> 8"
proof -
  from assms(3,4) have "(r, c) \<in> set (box_cells br bc)"
    using nth_mem[of k "box_cells br bc"] by (simp add: box_cells_length)
  from box_cells_set[OF this] assms(1,2) show ?thesis by auto
qed

text \<open>The clauses \<open>box_clauses\<close> emits for one box and one digit.\<close>

definition box_group :: "int \<Rightarrow> int \<Rightarrow> int \<Rightarrow> formula" where
  "box_group br bc v =
     [map (\<lambda>(r, c). var_index r c v) (box_cells br bc)] @
     concat (map (\<lambda>i. map (\<lambda>j.
       (case (box_cells br bc ! nat i, box_cells br bc ! nat j) of
          ((r1, c1), (r2, c2)) \<Rightarrow> [- var_index r1 c1 v, - var_index r2 c2 v]))
       (py_range (i + 1) 9)) (py_range 0 9))"

lemma box_clauses_groups:
  "box_clauses =
     concat (map (\<lambda>br. concat (map (\<lambda>bc. concat (map (\<lambda>v. box_group br bc v) DIGITS))
       box_origins)) box_origins)"
  unfolding box_clauses_def box_group_def Let_def box_cells_length by simp

lemma box_group_vars:
  assumes br: "br \<in> {0, 3, 6}" and bc: "bc \<in> {0, 3, 6}" and v: "1 \<le> v" "v \<le> 9"
    and cl: "cl \<in> set (box_group br bc v)"
    and l: "l \<in> set cl"
  shows "cell_var l"
proof -
  from cl have "cl = map (\<lambda>(r, c). var_index r c v) (box_cells br bc) \<or>
    (\<exists>i \<in> set (py_range 0 9). \<exists>j \<in> set (py_range (i + 1) 9).
        cl = (case (box_cells br bc ! nat i, box_cells br bc ! nat j) of
               ((r1, c1), (r2, c2)) \<Rightarrow> [- var_index r1 c1 v, - var_index r2 c2 v]))"
    unfolding box_group_def by auto
  then show ?thesis
  proof (elim disjE bexE)
    assume "cl = map (\<lambda>(r, c). var_index r c v) (box_cells br bc)"
    with l obtain r c where rc: "(r, c) \<in> set (box_cells br bc)" "l = var_index r c v" by auto
    from box_cells_set[OF rc(1)] br bc have "0 \<le> r \<and> r \<le> 8 \<and> 0 \<le> c \<and> c \<le> 8" by auto
    with rc(2) v show ?thesis by (simp add: cell_var_pos)
  next
    fix i j
    assume i: "i \<in> set (py_range 0 9)" and j: "j \<in> set (py_range (i + 1) 9)"
      and c: "cl = (case (box_cells br bc ! nat i, box_cells br bc ! nat j) of
               ((r1, c1), (r2, c2)) \<Rightarrow> [- var_index r1 c1 v, - var_index r2 c2 v])"
    from i j have ij: "0 \<le> i" "i < j" "j \<le> 8" by (auto simp: py_range_def)
    obtain r1 c1 where p1: "box_cells br bc ! nat i = (r1, c1)" by (cases "box_cells br bc ! nat i")
    obtain r2 c2 where p2: "box_cells br bc ! nat j = (r2, c2)" by (cases "box_cells br bc ! nat j")
    from ij have "nat i < 9" "nat j < 9" by auto
    from box_cells_nth[OF br bc this(1) p1] box_cells_nth[OF br bc this(2) p2]
    have "cell_var (- var_index r1 c1 v)" "cell_var (- var_index r2 c2 v)"
      using v by (simp_all add: cell_var_neg)
    with c p1 p2 l show ?thesis by auto
  qed
qed

lemma box_clauses_vars:
  assumes "cl \<in> set box_clauses" and "l \<in> set cl"
  shows "cell_var l"
proof -
  from assms(1) obtain br bc v where
    "br \<in> set box_origins" "bc \<in> set box_origins" "v \<in> set DIGITS" "cl \<in> set (box_group br bc v)"
    unfolding box_clauses_groups by auto
  then have "br \<in> {0, 3, 6}" "bc \<in> {0, 3, 6}" "1 \<le> v" "v \<le> 9" "cl \<in> set (box_group br bc v)"
    by (simp_all add: box_origins_set DIGITS_def)
  from box_group_vars[OF this assms(2)] show ?thesis .
qed

text \<open>The clue clauses of a well-formed grid.\<close>

definition valid_grid :: "int list list \<Rightarrow> bool" where
  "valid_grid puzzle =
     (length puzzle = 9 \<and> (\<forall>row \<in> set puzzle. length row = 9 \<and> (\<forall>v \<in> set row. 0 \<le> v \<and> v \<le> 9)))"

lemma clue_cell_valid:
  assumes "valid_grid puzzle" "0 \<le> r" "r \<le> 8" "0 \<le> c" "c \<le> 8"
  shows "clue_cell puzzle r c =
           Inr (if puzzle ! nat r ! nat c \<noteq> 0 then [[var_index r c (puzzle ! nat r ! nat c)]] else [])"
  using assms by (auto simp: clue_cell_def py_index_def valid_grid_def)

lemma clue_loop_valid:
  assumes "valid_grid puzzle" "\<forall>(r, c) \<in> set cells. 0 \<le> r \<and> r \<le> 8 \<and> 0 \<le> c \<and> c \<le> 8"
  shows "clue_loop puzzle cells =
           Inr (concat (map (\<lambda>(r, c). if puzzle ! nat r ! nat c \<noteq> 0
                               then [[var_index r c (puzzle ! nat r ! nat c)]] else []) cells))"
  using assms(2)
proof (induction cells)
  case Nil
  then show ?case by simp
next
  case (Cons p cells)
  obtain r c where p: "p = (r, c)" by (cases p)
  with Cons.prems have "0 \<le> r \<and> r \<le> 8 \<and> 0 \<le> c \<and> c \<le> 8" by simp
  with clue_cell_valid[OF assms(1), of r c] Cons p show ?case by simp
qed

lemma grid_cells_set: "set grid_cells = {(r, c). 0 \<le> r \<and> r \<le> 8 \<and> 0 \<le> c \<and> c \<le> 8}"
  unfolding grid_cells_def py_range_def SIZE_def by auto

lemma clue_clauses_valid:
  assumes "valid_grid puzzle"
  shows "\<exists>clues. clue_clauses puzzle = Inr clues \<and>
           set clues = {[var_index r c (puzzle ! nat r ! nat c)] | r c.
                          0 \<le> r \<and> r \<le> 8 \<and> 0 \<le> c \<and> c \<le> 8 \<and> puzzle ! nat r ! nat c \<noteq> 0}"
proof -
  have "clue_clauses puzzle =
           Inr (concat (map (\<lambda>(r, c). if puzzle ! nat r ! nat c \<noteq> 0
                               then [[var_index r c (puzzle ! nat r ! nat c)]] else []) grid_cells))"
    unfolding clue_clauses_def by (rule clue_loop_valid[OF assms]) (simp add: grid_cells_set)
  moreover have "set (concat (map (\<lambda>(r, c). if puzzle ! nat r ! nat c \<noteq> 0
                               then [[var_index r c (puzzle ! nat r ! nat c)]] else []) grid_cells))
        = {[var_index r c (puzzle ! nat r ! nat c)] | r c.
                          0 \<le> r \<and> r \<le> 8 \<and> 0 \<le> c \<and> c \<le> 8 \<and> puzzle ! nat r ! nat c \<noteq> 0}"
    by (auto simp: grid_cells_set split: if_splits)
  ultimately show ?thesis by simp
qed

lemma valid_grid_entry:
  assumes "valid_grid puzzle" "0 \<le> r" "r \<le> 8" "0 \<le> c" "c \<le> 8"
  shows "0 \<le> puzzle ! nat r ! nat c \<and> puzzle ! nat r ! nat c \<le> 9"
proof -
  from assms have r: "puzzle ! nat r \<in> set puzzle" by (auto simp: valid_grid_def)
  with assms have "length (puzzle ! nat r) = 9" by (auto simp: valid_grid_def)
  with assms have "puzzle ! nat r ! nat c \<in> set (puzzle ! nat r)" by auto
  with r assms(1) show ?thesis by (auto simp: valid_grid_def)
qed

text \<open>
  C8. For every 9 by 9 grid of digits the encoder's literals have magnitude
  \<open>r * 81 + c * 9 + v\<close> with \<open>r, c\<close> in 0..8 and \<open>v\<close> in 1..9, hence between 1 and 729,
  and every non-zero cell contributes its unit clause.
\<close>

theorem C8_sudoku_encoding:
  assumes "valid_grid puzzle"
  shows "\<exists>cls. encode puzzle = Inr cls \<and>
           (\<forall>cl \<in> set cls. \<forall>l \<in> set cl.
              (\<exists>r c v. 0 \<le> r \<and> r \<le> 8 \<and> 0 \<le> c \<and> c \<le> 8 \<and> 1 \<le> v \<and> v \<le> 9 \<and>
                        \<bar>l\<bar> = r * 81 + c * 9 + v) \<and> 1 \<le> \<bar>l\<bar> \<and> \<bar>l\<bar> \<le> 729) \<and>
           (\<forall>r c. 0 \<le> r \<and> r \<le> 8 \<and> 0 \<le> c \<and> c \<le> 8 \<and> puzzle ! nat r ! nat c \<noteq> 0 \<longrightarrow>
              [r * 81 + c * 9 + puzzle ! nat r ! nat c] \<in> set cls)"
proof -
  from clue_clauses_valid[OF assms] obtain clues where
    cc: "clue_clauses puzzle = Inr clues"
    and cs: "set clues = {[var_index r c (puzzle ! nat r ! nat c)] | r c.
                          0 \<le> r \<and> r \<le> 8 \<and> 0 \<le> c \<and> c \<le> 8 \<and> puzzle ! nat r ! nat c \<noteq> 0}"
    by blast
  let ?cls = "cell_clauses @ row_clauses @ column_clauses @ box_clauses @ clues"
  have enc: "encode puzzle = Inr ?cls" by (simp add: encode_def cc)
  have vi: "var_index r c v = r * 81 + c * 9 + v" for r c v
    by (simp add: var_index_def SIZE_def)
  have clue_vars: "cell_var l" if "cl \<in> set clues" "l \<in> set cl" for cl l
  proof -
    from that cs obtain r c where
      rc: "0 \<le> r" "r \<le> 8" "0 \<le> c" "c \<le> 8" "puzzle ! nat r ! nat c \<noteq> 0"
      "l = var_index r c (puzzle ! nat r ! nat c)" by auto
    from valid_grid_entry[OF assms rc(1-4)] rc(5)
    have "1 \<le> puzzle ! nat r ! nat c \<and> puzzle ! nat r ! nat c \<le> 9" by simp
    with rc show ?thesis by (simp add: cell_var_pos)
  qed
  have all_vars: "cell_var l" if "cl \<in> set ?cls" "l \<in> set cl" for cl l
    using that cell_clauses_vars row_clauses_vars column_clauses_vars box_clauses_vars clue_vars
    by auto
  have "(\<exists>r c v. 0 \<le> r \<and> r \<le> 8 \<and> 0 \<le> c \<and> c \<le> 8 \<and> 1 \<le> v \<and> v \<le> 9 \<and>
                        \<bar>l\<bar> = r * 81 + c * 9 + v) \<and> 1 \<le> \<bar>l\<bar> \<and> \<bar>l\<bar> \<le> 729"
    if "cl \<in> set ?cls" "l \<in> set cl" for cl l
    using all_vars[OF that] cell_var_range[of l] unfolding cell_var_def vi by blast
  moreover have "[r * 81 + c * 9 + puzzle ! nat r ! nat c] \<in> set ?cls"
    if "0 \<le> r \<and> r \<le> 8 \<and> 0 \<le> c \<and> c \<le> 8 \<and> puzzle ! nat r ! nat c \<noteq> 0" for r c
    using that cs unfolding vi by auto
  ultimately show ?thesis using enc by blast
qed

definition example_grid :: "int list list" where
  "example_grid = [5, 3, 0, 0, 7, 0, 0, 0, 0] # replicate 8 (replicate 9 0)"

theorem C8_sudoku_encoding_witness:
  "valid_grid example_grid \<and>
   (\<exists>cls. encode example_grid = Inr cls \<and> [0 * 81 + 1 * 9 + example_grid ! nat 0 ! nat 1] \<in> set cls)"
proof -
  have v: "valid_grid example_grid"
    by (simp add: valid_grid_def example_grid_def)
  have nz: "0 \<le> (0::int) \<and> (0::int) \<le> 8 \<and> 0 \<le> (1::int) \<and> (1::int) \<le> 8 \<and> example_grid ! nat 0 ! nat 1 \<noteq> 0"
    by (simp add: example_grid_def)
  from C8_sudoku_encoding[OF v] nz v show ?thesis by blast
qed

section \<open>Writing and reading back\<close>

declare str_nat.simps [simp del]

lemma digit_chars:
  "char_of (48 :: nat) = CHR ''0''" "char_of (49 :: nat) = CHR ''1''"
  "char_of (50 :: nat) = CHR ''2''" "char_of (51 :: nat) = CHR ''3''"
  "char_of (52 :: nat) = CHR ''4''" "char_of (53 :: nat) = CHR ''5''"
  "char_of (54 :: nat) = CHR ''6''" "char_of (55 :: nat) = CHR ''7''"
  "char_of (56 :: nat) = CHR ''8''" "char_of (57 :: nat) = CHR ''9''"
  by code_simp+

lemma digit_char:
  assumes "k < 10"
  shows "is_digit (char_of (48 + k))" and "digit_val (char_of (48 + k)) = k"
    and "\<not> is_space (char_of (48 + k))" and "char_of (48 + k) \<noteq> CHR ''-''"
    and "char_of (48 + k) \<noteq> CHR ''+''" and "char_of (48 + k) \<noteq> CHR ''c''"
    and "char_of (48 + k) \<noteq> CHR ''p''" and "char_of (48 + k) \<noteq> CHR 0x0A"
    and "char_of (48 + k) \<noteq> CHR 0x0D"
proof -
  from assms have "k \<in> {0, 1, 2, 3, 4, 5, 6, 7, 8, 9}" by auto
  then show "is_digit (char_of (48 + k))" and "digit_val (char_of (48 + k)) = k"
    and "\<not> is_space (char_of (48 + k))" and "char_of (48 + k) \<noteq> CHR ''-''"
    and "char_of (48 + k) \<noteq> CHR ''+''" and "char_of (48 + k) \<noteq> CHR ''c''"
    and "char_of (48 + k) \<noteq> CHR ''p''" and "char_of (48 + k) \<noteq> CHR 0x0A"
    and "char_of (48 + k) \<noteq> CHR 0x0D"
    by (auto simp: is_digit_def digit_val_def is_space_def digit_chars)
qed

definition plain :: "char \<Rightarrow> bool" where
  "plain c = (\<not> is_space c \<and> c \<noteq> CHR 0x0A \<and> c \<noteq> CHR 0x0D)"

lemma str_nat_digits: "c \<in> set (str_nat n) \<Longrightarrow> is_digit c \<and> plain c \<and> c \<noteq> CHR ''-'' \<and> c \<noteq> CHR ''+'' \<and> c \<noteq> CHR ''c'' \<and> c \<noteq> CHR ''p''"
proof (induction n rule: str_nat.induct)
  case (1 n)
  show ?case
  proof (cases "n < 10")
    case True
    with "1.prems" have "c = char_of (48 + n)" by (subst (asm) str_nat.simps) simp
    with digit_char[OF True] show ?thesis by (simp add: plain_def)
  next
    case False
    with "1.prems" have "c \<in> set (str_nat (n div 10)) \<or> c = char_of (48 + n mod 10)"
      by (subst (asm) str_nat.simps) auto
    moreover have "n mod 10 < 10" by simp
    ultimately show ?thesis using "1.IH"[OF False] digit_char[of "n mod 10"]
      by (auto simp: plain_def)
  qed
qed

lemma str_nat_nonempty: "str_nat n \<noteq> []"
  by (subst str_nat.simps) simp

lemma py_digits_all_digits:
  "\<forall>c \<in> set xs. is_digit c \<Longrightarrow> xs \<noteq> [] \<or> p \<Longrightarrow>
     py_digits p acc xs = Some (foldl (\<lambda>a c. a * 10 + digit_val c) acc xs)"
  by (induction xs arbitrary: p acc) auto

lemma str_nat_value: "foldl (\<lambda>a c. a * 10 + digit_val c) 0 (str_nat n) = n"
proof (induction n rule: str_nat.induct)
  case (1 n)
  show ?case
  proof (cases "n < 10")
    case True
    then show ?thesis by (subst str_nat.simps) (simp add: digit_char)
  next
    case False
    have "n mod 10 < 10" by simp
    from digit_char(2)[OF this] "1.IH"[OF False] False show ?thesis
      by (subst str_nat.simps) simp
  qed
qed

lemma py_digits_str_nat: "py_digits False 0 (str_nat n) = Some n"
  using py_digits_all_digits[of "str_nat n" False 0] str_nat_digits[of _ n]
  by (simp add: str_nat_nonempty str_nat_value)

lemma py_int_str_int: "py_int (str_int n) = Inr n"
proof (cases "n < 0")
  case True
  then show ?thesis by (simp add: py_int_def str_int_def py_digits_str_nat)
next
  case False
  obtain c r where cr: "str_nat (nat n) = c # r"
    using str_nat_nonempty[of "nat n"] by (cases "str_nat (nat n)") auto
  then have "c \<in> set (str_nat (nat n))" by simp
  from str_nat_digits[OF this] have "c \<noteq> CHR ''-''" "c \<noteq> CHR ''+''" by simp_all
  with False cr py_digits_str_nat[of "nat n"] show ?thesis
    by (simp add: py_int_def str_int_def)
qed

text \<open>A token: not empty, no whitespace or line break in it.\<close>

definition token :: "string \<Rightarrow> bool" where
  "token t = (t \<noteq> [] \<and> (\<forall>c \<in> set t. plain c))"

lemma token_str_int: "token (str_int n)"
  using str_nat_digits[of _ "nat n"] str_nat_digits[of _ "nat (- n)"] str_nat_nonempty
  by (auto simp: token_def str_int_def plain_def is_space_def)

lemma str_int_first: "hd (str_int n) \<noteq> CHR ''c'' \<and> hd (str_int n) \<noteq> CHR ''p''"
proof (cases "n < 0")
  case True
  then show ?thesis by (simp add: str_int_def)
next
  case False
  obtain c r where cr: "str_nat (nat n) = c # r"
    using str_nat_nonempty[of "nat n"] by (cases "str_nat (nat n)") auto
  then have "c \<in> set (str_nat (nat n))" by simp
  from str_nat_digits[OF this] cr False show ?thesis by (simp add: str_int_def)
qed

lemma str_int_zero: "str_int n = ''0'' \<longleftrightarrow> n = 0"
proof
  assume a: "str_int n = ''0''"
  have "py_int ''0'' = Inr 0" by code_simp
  with py_int_str_int[of n] a show "n = 0" by simp
next
  assume "n = 0"
  moreover have "str_int 0 = ''0''" by code_simp
  ultimately show "str_int n = ''0''" by simp
qed

lemma split_ws_token:
  "\<forall>c \<in> set t. \<not> is_space c \<Longrightarrow> split_ws cur (t @ rest) = split_ws (cur @ t) rest"
  by (induction t arbitrary: cur) auto

lemma split_join_sep:
  "sep = '' '' \<Longrightarrow> \<forall>t \<in> set ts. token t \<Longrightarrow> split_ws [] (join sep ts) = ts"
proof (induction sep ts rule: join.induct)
  case (1 sep)
  then show ?case by simp
next
  case (2 sep x)
  then have "\<forall>c \<in> set x. \<not> is_space c" "x \<noteq> []" by (auto simp: token_def plain_def)
  with split_ws_token[of x "[]" "[]"] show ?case by simp
next
  case (3 sep x y ys)
  then have x: "\<forall>c \<in> set x. \<not> is_space c" "x \<noteq> []" by (auto simp: token_def plain_def)
  from 3 have "split_ws [] (join sep (y # ys)) = y # ys" by simp
  with x split_ws_token[of x "[]" "sep @ join sep (y # ys)"] "3.prems"(1) show ?case
    by (simp add: is_space_def)
qed

lemma split_join: "\<forall>t \<in> set ts. token t \<Longrightarrow> split_ws [] (join '' '' ts) = ts"
  by (rule split_join_sep[OF refl])

lemma join_snoc: "xs \<noteq> [] \<Longrightarrow> join sep (xs @ [y]) = join sep xs @ sep @ y"
  by (induction sep xs rule: join.induct) auto

lemma set_join: "set (join sep ts) \<subseteq> set sep \<union> \<Union> (set ` set ts)"
  by (induction sep ts rule: join.induct) auto

lemma join_plain_or_space:
  assumes "\<forall>t \<in> set ts. token t" and "c \<in> set (join '' '' ts)"
  shows "c \<noteq> CHR 0x0A \<and> c \<noteq> CHR 0x0D"
proof -
  from assms(2) set_join[of "'' ''" ts] have "c = CHR '' '' \<or> (\<exists>t \<in> set ts. c \<in> set t)"
    by auto
  with assms(1) show ?thesis by (auto simp: token_def plain_def)
qed

lemma join_hd: "ts \<noteq> [] \<Longrightarrow> hd ts \<noteq> [] \<Longrightarrow> hd (join sep ts) = hd (hd ts)"
  by (induction sep ts rule: join.induct) auto

lemma join_nonempty_last: "ts \<noteq> [] \<Longrightarrow> last ts \<noteq> [] \<Longrightarrow> join sep ts \<noteq> []"
  by (induction sep ts rule: join.induct) auto

lemma join_last: "ts \<noteq> [] \<Longrightarrow> last ts \<noteq> [] \<Longrightarrow> last (join sep ts) = last (last ts)"
proof (induction sep ts rule: join.induct)
  case (3 sep x y ys)
  then have "join sep (y # ys) \<noteq> []" using join_nonempty_last[of "y # ys" sep] by simp
  with 3 show ?case by simp
qed simp_all

lemma join_nonempty: "ts \<noteq> [] \<Longrightarrow> hd ts \<noteq> [] \<Longrightarrow> join sep ts \<noteq> []"
  by (induction sep ts rule: join.induct) auto

lemma strip_id: "s \<noteq> [] \<Longrightarrow> \<not> is_space (hd s) \<Longrightarrow> \<not> is_space (last s) \<Longrightarrow> strip s = s"
proof -
  assume a: "s \<noteq> []" "\<not> is_space (hd s)" "\<not> is_space (last s)"
  then have "dropWhile is_space s = s" by (cases s) auto
  moreover from a have "dropWhile is_space (rev s) = rev s"
    by (cases "rev s") (auto simp: last_rev hd_rev)
  ultimately show ?thesis by (simp add: strip_def)
qed

text \<open>A line of tokens joined by single spaces, as the writer emits it.\<close>

lemma token_line:
  assumes ts: "\<forall>t \<in> set ts. token t" and ne: "ts \<noteq> []"
  shows "strip (join '' '' ts) = join '' '' ts" and "split (join '' '' ts) = ts"
    and "join '' '' ts \<noteq> []" and "hd (join '' '' ts) = hd (hd ts)"
proof -
  from ts ne have h: "hd ts \<noteq> []" "last ts \<noteq> []" by (auto simp: token_def)
  have "hd ts \<in> set ts" "last ts \<in> set ts" using ne by simp_all
  with ts have "\<forall>c \<in> set (hd ts). plain c" "\<forall>c \<in> set (last ts). plain c"
    by (auto simp: token_def)
  moreover have "hd (hd ts) \<in> set (hd ts)" "last (last ts) \<in> set (last ts)"
    using h by simp_all
  ultimately have "plain (hd (hd ts))" "plain (last (last ts))" by blast+
  then have "\<not> is_space (hd (join '' '' ts))" "\<not> is_space (last (join '' '' ts))"
    using join_hd[OF ne h(1)] join_last[OF ne h(2)] by (simp_all add: plain_def)
  then show "strip (join '' '' ts) = join '' '' ts"
    using strip_id join_nonempty[OF ne h(1)] by blast
  show "split (join '' '' ts) = ts" using split_join[OF ts] by (simp add: split_def)
  show "join '' '' ts \<noteq> []" by (rule join_nonempty[OF ne h(1)])
  show "hd (join '' '' ts) = hd (hd ts)" by (rule join_hd[OF ne h(1)])
qed

lemma int_tokens_str_int: "int_tokens (map str_int c) = Inr c"
  by (induction c) (simp_all add: py_int_str_int)

lemma parse_clause_line:
  assumes "c \<noteq> []" and "0 \<notin> set c"
  shows "parse_line (nv, nc, cls) (join '' '' (map str_int c) @ '' 0'') = Inr (nv, nc, cls @ [c])"
proof -
  let ?ts = "map str_int c @ [''0'']"
  have tok: "\<forall>t \<in> set ?ts. token t"
    using token_str_int by (auto simp: token_def plain_def is_space_def)
  have ne: "?ts \<noteq> []" by simp
  have line: "join '' '' (map str_int c) @ '' 0'' = join '' '' ?ts"
    using assms(1) by (simp add: join_snoc)
  from assms(1) have hd_ts: "hd ?ts = str_int (hd c)" by (cases c) auto
  have filt: "filter (\<lambda>t. t \<noteq> ''0'') (map str_int c) = map str_int c"
    using assms(2) by (induction c) (auto simp: str_int_zero)
  note tl = token_line[OF tok ne]
  show ?thesis
    unfolding line parse_line_def
    using tl str_int_first[of "hd c"] assms(1)
    by (simp add: Let_def hd_ts filt int_tokens_str_int)
qed

lemma parse_header_line:
  "parse_line (nv, nc, cls) (''p cnf '' @ str_int a @ '' '' @ str_int b) = Inr (a, b, cls)"
proof -
  let ?ts = "[''p'', ''cnf'', str_int a, str_int b]"
  have tok: "\<forall>t \<in> set ?ts. token t"
    using token_str_int by (auto simp: token_def plain_def is_space_def)
  have line: "''p cnf '' @ str_int a @ '' '' @ str_int b = join '' '' ?ts" by simp
  note tl = token_line[OF tok]
  show ?thesis
    unfolding line parse_line_def
    using tl by (simp add: Let_def py_int_str_int del: join.simps)
qed

lemma split_lines_plain:
  "\<forall>c \<in> set l. c \<noteq> CHR 0x0A \<and> c \<noteq> CHR 0x0D \<Longrightarrow> split_lines cur (l @ rest) = split_lines (cur @ l) rest"
  by (induction l arbitrary: cur) auto

lemma split_lines_line:
  "\<forall>c \<in> set l. c \<noteq> CHR 0x0A \<and> c \<noteq> CHR 0x0D \<Longrightarrow>
     split_lines [] (l @ CHR 0x0A # rest) = l # split_lines [] rest"
  using split_lines_plain[of l "[]" "CHR 0x0A # rest"] by simp

lemma clause_text_plain:
  "ch \<in> set (join '' '' (map str_int c) @ '' 0'') \<Longrightarrow> ch \<noteq> CHR 0x0A \<and> ch \<noteq> CHR 0x0D"
  using join_plain_or_space[of "map str_int c" ch] token_str_int by auto

lemma split_lines_clause_line:
  "split_lines [] (clause_line c @ rest) =
     (join '' '' (map str_int c) @ '' 0'') # split_lines [] rest"
  using split_lines_line[of "join '' '' (map str_int c) @ '' 0''" rest] clause_text_plain[of _ c]
  by (simp add: clause_line_def)

lemma file_lines_clauses:
  "split_lines [] (concat (map clause_line cls)) =
     map (\<lambda>c. join '' '' (map str_int c) @ '' 0'') cls @ [[]]"
  by (induction cls) (simp_all add: split_lines_clause_line)

lemma parse_clause_lines:
  assumes "\<forall>c \<in> set cs. c \<noteq> [] \<and> 0 \<notin> set c"
  shows "parse_lines (nv, nc, cls) (map (\<lambda>c. join '' '' (map str_int c) @ '' 0'') cs @ [[]])
           = Inr (nv, nc, cls @ cs)"
  using assms
proof (induction cs arbitrary: cls)
  case Nil
  then show ?case by (simp add: parse_line_def strip_def)
next
  case (Cons c cs)
  then have "c \<noteq> []" "0 \<notin> set c" by auto
  from parse_clause_line[OF this, of nv nc cls] Cons show ?case by simp
qed

text \<open>
  C7. Writing a clause list of non-zero literals with \<open>write_dimacs\<close> and parsing
  the text back gives the same clauses. Not when a clause is empty: its line holds only
  the terminator and the parser drops it.
\<close>

theorem C7_empty_clause_is_lost:
  "parse_dimacs (write_dimacs [[]]) = Inr \<lparr>num_vars = 729, num_clauses = 1, clauses = []\<rparr>"
proof -
  have w: "write_dimacs [[]] = ''p cnf 729 1\<newline> 0\<newline>''"
    by code_simp
  have p: "parse_dimacs ''p cnf 729 1\<newline> 0\<newline>'' =
             Inr \<lparr>num_vars = 729, num_clauses = 1, clauses = []\<rparr>"
    by code_simp
  show ?thesis by (simp only: w p)
qed

text \<open>
  C7, as the code has it: for non-empty clauses of non-zero literals the text written
  parses back to the same clause sequence, with \<open>num_clauses\<close> the number of clauses
  written (and \<open>num_vars\<close> the 729 of the header).
\<close>

theorem C7_write_then_parse:
  assumes "\<forall>c \<in> set cls. c \<noteq> [] \<and> 0 \<notin> set c"
  shows "parse_dimacs (write_dimacs cls) =
           Inr \<lparr>num_vars = 729, num_clauses = int (length cls), clauses = cls\<rparr>"
proof -
  let ?h = "''p cnf '' @ str_int (SIZE * SIZE * SIZE) @ '' '' @ str_int (int (length cls))"
  have hp: "\<forall>c \<in> set ?h. c \<noteq> CHR 0x0A \<and> c \<noteq> CHR 0x0D"
    using token_str_int[of "SIZE * SIZE * SIZE"] token_str_int[of "int (length cls)"]
    by (auto simp: token_def plain_def)
  have "write_dimacs cls = ?h @ CHR 0x0A # concat (map clause_line cls)"
    by (simp add: write_dimacs_def)
  then have "file_lines (write_dimacs cls) =
      ?h # map (\<lambda>c. join '' '' (map str_int c) @ '' 0'') cls @ [[]]"
    unfolding file_lines_def using split_lines_line[OF hp] file_lines_clauses by simp
  then have "parse_lines (0, 0, []) (file_lines (write_dimacs cls)) =
      Inr (SIZE * SIZE * SIZE, int (length cls), cls)"
    using parse_header_line[of 0 0 "[]"] parse_clause_lines[OF assms, of _ _ "[]"] by simp
  then show ?thesis by (simp add: parse_dimacs_def SIZE_def)
qed

theorem C7_write_then_parse_witness:
  "parse_dimacs (write_dimacs [[1, - 2], [3]]) =
     Inr \<lparr>num_vars = 729, num_clauses = 2, clauses = [[1, - 2], [3]]\<rparr>"
  using C7_write_then_parse[of "[[1, - 2], [3]]"] by simp

section \<open>One clause for each line\<close>

text \<open>
  A line of a DIMACS text as a writer lays it out: the literals separated by single spaces,
  followed by the terminator \<open>0\<close> when \<open>ended\<close> is set. A text is such lines, each
  closed by a line feed.
\<close>

definition literal_line :: "int list \<Rightarrow> bool \<Rightarrow> string" where
  "literal_line lits ended = join '' '' (map str_int lits @ (if ended then [''0''] else []))"

definition dimacs_text :: "(int list \<times> bool) list \<Rightarrow> string" where
  "dimacs_text ls = concat (map (\<lambda>(lits, ended). literal_line lits ended @ [CHR 0x0A]) ls)"

lemma parse_zero_line: "parse_line (nv, nc, cls) ''0'' = Inr (nv, nc, cls)"
  by (simp add: parse_line_def strip_def split_def is_space_def)

lemma parse_blank_line: "parse_line (nv, nc, cls) [] = Inr (nv, nc, cls)"
  by (simp add: parse_line_def strip_def)

lemma parse_open_line:
  assumes "c \<noteq> []" and "0 \<notin> set c"
  shows "parse_line (nv, nc, cls) (join '' '' (map str_int c)) = Inr (nv, nc, cls @ [c])"
proof -
  let ?ts = "map str_int c"
  have tok: "\<forall>t \<in> set ?ts. token t"
    using token_str_int by auto
  have ne: "?ts \<noteq> []" using assms(1) by simp
  from assms(1) have hd_ts: "hd ?ts = str_int (hd c)" by (cases c) auto
  have filt: "filter (\<lambda>t. t \<noteq> ''0'') (map str_int c) = map str_int c"
    using assms(2) by (induction c) (auto simp: str_int_zero)
  note tl = token_line[OF tok ne]
  show ?thesis
    unfolding parse_line_def
    using tl str_int_first[of "hd c"] assms(1)
    by (simp add: Let_def hd_ts filt int_tokens_str_int)
qed

lemma parse_literal_line:
  assumes "0 \<notin> set lits"
  shows "parse_line (nv, nc, cls) (literal_line lits ended) =
           Inr (nv, nc, if lits = [] then cls else cls @ [lits])"
proof (cases "lits = []")
  case True
  show ?thesis
  proof (cases ended)
    case True
    with \<open>lits = []\<close> parse_zero_line[of nv nc cls] show ?thesis by (simp add: literal_line_def)
  next
    case False
    with \<open>lits = []\<close> parse_blank_line[of nv nc cls] show ?thesis by (simp add: literal_line_def)
  qed
next
  case False
  show ?thesis
  proof (cases ended)
    case True
    then have "literal_line lits ended = join '' '' (map str_int lits) @ '' 0''"
      using False by (simp add: literal_line_def join_snoc)
    with parse_clause_line[OF False assms, of nv nc cls] False show ?thesis by simp
  next
    case nt: False
    then have "literal_line lits ended = join '' '' (map str_int lits)"
      by (simp add: literal_line_def)
    with parse_open_line[OF False assms, of nv nc cls] False show ?thesis by simp
  qed
qed


lemma literal_line_plain:
  assumes "ch \<in> set (literal_line lits ended)"
  shows "ch \<noteq> CHR 0x0A \<and> ch \<noteq> CHR 0x0D"
proof -
  have z: "token ''0''" by (simp add: token_def plain_def is_space_def)
  have "\<forall>t \<in> set (map str_int lits @ [''0'']). token t"
    using token_str_int z by auto
  moreover have "\<forall>t \<in> set (map str_int lits). token t"
    using token_str_int by auto
  ultimately show ?thesis
    using assms join_plain_or_space[of "map str_int lits @ [''0'']" ch]
      join_plain_or_space[of "map str_int lits" ch]
    by (cases ended) (simp_all add: literal_line_def)
qed

lemma file_lines_dimacs_text:
  "split_lines [] (dimacs_text ls) = map (\<lambda>(lits, ended). literal_line lits ended) ls @ [[]]"
proof (induction ls)
  case Nil
  then show ?case by (simp add: dimacs_text_def)
next
  case (Cons l ls)
  obtain lits ended where l: "l = (lits, ended)" by (cases l)
  have d: "dimacs_text (l # ls) = literal_line lits ended @ CHR 0x0A # dimacs_text ls"
    by (simp add: dimacs_text_def l)
  have "\<forall>c \<in> set (literal_line lits ended). c \<noteq> CHR 0x0A \<and> c \<noteq> CHR 0x0D"
    using literal_line_plain by blast
  from split_lines_line[OF this, of "dimacs_text ls"] Cons l show ?case
    unfolding d by simp
qed

lemma parse_literal_lines:
  assumes "\<forall>(lits, ended) \<in> set ls. 0 \<notin> set lits"
  shows "parse_lines (nv, nc, cls) (map (\<lambda>(lits, ended). literal_line lits ended) ls @ [[]])
           = Inr (nv, nc, cls @ filter (\<lambda>l. l \<noteq> []) (map fst ls))"
  using assms
proof (induction ls arbitrary: cls)
  case Nil
  then show ?case by (simp add: parse_blank_line)
next
  case (Cons l ls)
  obtain lits ended where l: "l = (lits, ended)" by (cases l)
  with Cons.prems have z: "0 \<notin> set lits" and rest: "\<forall>(lits, ended) \<in> set ls. 0 \<notin> set lits"
    by simp_all
  note p = parse_literal_line[OF z, of nv nc cls ended]
  show ?case
  proof (cases "lits = []")
    case True
    with p Cons.IH[OF rest, of cls] l show ?thesis by simp
  next
    case False
    with p Cons.IH[OF rest, of "cls @ [lits]"] l show ?thesis by simp
  qed
qed

text \<open>
  C6, as the code has it: the parser reads line by line. A line holding one or more
  non-zero literals, with or without the terminator, is recorded as the clause of exactly
  these literals; a blank line and a line holding only the terminator record nothing. So
  the clauses parsed are the literal lists of the lines that have literals, in order, one
  clause for each line, and \<open>num_clauses\<close> is their number: the literals of a clause
  laid out over several lines are read as several clauses.
\<close>

theorem C6_one_clause_per_line:
  assumes "\<forall>(lits, ended) \<in> set ls. 0 \<notin> set lits"
  shows "parse_dimacs (dimacs_text ls) =
           Inr \<lparr>num_vars = 0,
                num_clauses = int (length (filter (\<lambda>l. l \<noteq> []) (map fst ls))),
                clauses = filter (\<lambda>l. l \<noteq> []) (map fst ls)\<rparr>"
  using parse_literal_lines[OF assms, of 0 0 "[]"]
  by (simp add: parse_dimacs_def file_lines_def file_lines_dimacs_text)

theorem C6_one_clause_per_line_witness:
  "dimacs_text [([1, 2], False), ([3], True), ([], True), ([- 4, 5], True)] =
     ''1 2\<newline>3 0\<newline>0\<newline>-4 5 0\<newline>'' \<and>
   parse_dimacs (dimacs_text [([1, 2], False), ([3], True), ([], True), ([- 4, 5], True)]) =
     Inr \<lparr>num_vars = 0, num_clauses = 3, clauses = [[1, 2], [3], [- 4, 5]]\<rparr>"
proof -
  have "dimacs_text [([1, 2], False), ([3], True), ([], True), ([- 4, 5], True)] =
     ''1 2\<newline>3 0\<newline>0\<newline>-4 5 0\<newline>''"
    by code_simp
  moreover have "parse_dimacs (dimacs_text [([1, 2], False), ([3], True), ([], True), ([- 4, 5], True)]) =
     Inr \<lparr>num_vars = 0, num_clauses = 3, clauses = [[1, 2], [3], [- 4, 5]]\<rparr>"
    using C6_one_clause_per_line[of "[([1, 2], False), ([3], True), ([], True), ([- 4, 5], True)]"]
    by simp
  ultimately show ?thesis by (rule conjI)
qed

section \<open>What the steps of CDCL leave alone\<close>

declare propagate_loop.simps [simp del]

lemma update_watch_formula [simp]: "formula (update_watch st i a b) = formula st"
  by (simp add: update_watch_def add_watch_def remove_watch_def)

lemma visit_watchers_formula:
  "visit_watchers st todo opp ws = Inr (r, st', todo') \<Longrightarrow>
     formula st' = formula st \<and> (\<forall>c. r = Some c \<longrightarrow> c \<in> set (formula st))"
proof (induction ws arbitrary: st todo)
  case Nil
  then show ?case by simp
next
  case (Cons idx ws)
  from Cons.prems have len: "idx < length (formula st)"
    by (auto split: if_splits)
  from Cons.prems len obtain w1 w2 where wm: "map_of (watch_map st) idx = Some (w1, w2)"
    by (cases "map_of (watch_map st) idx") (auto simp: Let_def)
  define other where "other = (if w1 = opp then w2 else w1)"
  define cl where "cl = formula st ! idx"
  have mem: "cl \<in> set (formula st)" using len by (simp add: cl_def)
  show ?case
  proof (cases "value_of other (assignment st) = Some True")
    case True
    with Cons.prems len wm have "visit_watchers st todo opp ws = Inr (r, st', todo')"
      by (simp add: Let_def other_def)
    from Cons.IH[OF this] show ?thesis .
  next
    case nt: False
    show ?thesis
    proof (cases "find (\<lambda>candidate. candidate \<noteq> w1 \<and> candidate \<noteq> w2 \<and>
                                value_of candidate (assignment st) \<noteq> Some False) cl")
      case (Some cand)
      define st1 where "st1 = update_watch
                           (st\<lparr>watch_map :=
                                 AList.update idx
                                   (if w1 = opp then (cand, w2) else (w1, cand))
                                   (watch_map st)\<rparr>)
                           idx opp cand"
      from Cons.prems len wm nt Some
      have rec: "visit_watchers st1 todo opp ws = Inr (r, st', todo')"
        by (simp add: Let_def other_def cl_def st1_def)
      have "formula st1 = formula st" by (simp add: st1_def)
      with Cons.IH[OF rec] show ?thesis by simp
    next
      case None
      show ?thesis
      proof (cases "value_of other (assignment st) = Some False")
        case True
        with Cons.prems len wm nt None mem show ?thesis
          by (auto simp: Let_def other_def cl_def)
      next
        case nf: False
        define st1 where "st1 = st\<lparr>assignment := AList.update \<bar>other\<bar> (other > 0) (assignment st),
                                 phase := AList.update \<bar>other\<bar> (other > 0) (phase st),
                                 decision_levels := AList.update \<bar>other\<bar> (decision_level st) (decision_levels st),
                                 reason := AList.update \<bar>other\<bar> cl (reason st),
                                 level_literals := level_literals st @ [other]\<rparr>"
        from Cons.prems len wm nt None nf
        have rec: "visit_watchers st1 (todo @ [other]) opp ws = Inr (r, st', todo')"
          by (simp add: Let_def other_def cl_def st1_def)
        have "formula st1 = formula st" by (simp add: st1_def)
        with Cons.IH[OF rec] show ?thesis by simp
      qed
    qed
  qed
qed

lemma propagate_loop_formula:
  "propagate_loop st todo = Inr (r, st') \<Longrightarrow>
     formula st' = formula st \<and> (\<forall>c. r = Some c \<longrightarrow> c \<in> set (formula st))"
proof (induction st todo rule: propagate_loop.induct)
  case (1 st todo)
  show ?case
  proof (cases "todo = []")
    case True
    with "1.prems" show ?thesis by (simp add: propagate_loop.simps)
  next
    case False
    define ws where "ws = (case map_of (watches st) (- last todo) of None \<Rightarrow> [] | Some l \<Rightarrow> l)"
    from "1.prems" False obtain r1 st1 todo1 where
      v: "visit_watchers st (butlast todo) (- last todo) ws = Inr (r1, st1, todo1)"
      by (subst (asm) propagate_loop.simps)
         (auto simp: Let_def ws_def split: sum.splits)
    note f = visit_watchers_formula[OF v]
    show ?thesis
    proof (cases r1)
      case None
      with "1.prems" False v have rec: "propagate_loop st1 todo1 = Inr (r, st')"
        by (subst (asm) propagate_loop.simps) (simp add: Let_def ws_def)
      from "1.IH"[OF False refl refl ws_def v[unfolded None] refl refl refl rec] f
      show ?thesis by simp
    next
      case (Some c)
      with "1.prems" False v have "r = Some c \<and> st' = st1"
        by (subst (asm) propagate_loop.simps) (simp add: Let_def ws_def)
      with f Some show ?thesis by simp
    qed
  qed
qed

lemma propagate_formula:
  assumes "propagate st stats = Inr (r, st', stats')"
  shows "formula st' = formula st" and "\<And>c. r = Some c \<Longrightarrow> c \<in> set (formula st)"
    and "conflicts stats' = conflicts stats + (if r = None then 0 else 1)"
    and "decisions stats' = decisions stats" and "learned_clauses stats' = learned_clauses stats"
    and "restarts stats' = restarts stats"
proof -
  from assms obtain r0 where pl: "propagate_loop st (level_literals st) = Inr (r0, st')"
    and r: "r = r0" and s: "stats' = (if r0 = None then stats else stats\<lparr>conflicts := conflicts stats + 1\<rparr>)"
    by (auto simp: propagate_def split: sum.splits option.splits)
  from propagate_loop_formula[OF pl] r
  show "formula st' = formula st" and "\<And>c. r = Some c \<Longrightarrow> c \<in> set (formula st)" by simp_all
  from r s show "conflicts stats' = conflicts stats + (if r = None then 0 else 1)"
    and "decisions stats' = decisions stats" and "learned_clauses stats' = learned_clauses stats"
    and "restarts stats' = restarts stats" by simp_all
qed

lemma fold_unassign_formula [simp]: "formula (fold unassign vs st) = formula st"
  by (induction vs arbitrary: st) (simp_all add: unassign_def)

lemma backtrack_formula [simp]: "formula (backtrack st level) = formula st"
  by (simp add: backtrack_def Let_def)

lemma fold_decay_var_formula [simp]: "formula (fold (decay_var ops) items st) = formula st"
  by (induction items arbitrary: st) (simp_all add: decay_var_def Let_def split: prod.splits)

lemma decay_scores_formula [simp]: "formula (decay_scores ops st) = formula st"
  by (simp add: decay_scores_def)

lemma assign_at_level_formula [simp]: "formula (assign_at_level st l why) = formula st"
  by (simp add: assign_at_level_def Let_def)

lemma bump_var_formula [simp]: "formula (bump_var ops l st) = formula st"
  by (simp add: bump_var_def Let_def)

lemma fold_bump_var_formula [simp]: "formula (fold (bump_var ops) lits st) = formula st"
  by (induction lits arbitrary: st) simp_all

lemma add_watch_formula [simp]: "formula (add_watch st l i) = formula st"
  by (simp add: add_watch_def)

lemma learn_clause_formula:
  assumes "learn_clause ops st clause stats = Inr (st', stats')"
  shows "formula st' = formula st @ [clause]" and "clause \<noteq> []"
    and "stats' = stats\<lparr>learned_clauses := learned_clauses stats + 1\<rparr>"
  using assms by (auto simp: learn_clause_def Let_def split: list.splits)

lemma select_branch_literal_formula:
  "select_branch_literal st = (r, st') \<Longrightarrow> formula st' = formula st"
  by (auto simp: select_branch_literal_def Let_def split: prod.splits option.splits)

section \<open>The counters of CDCL\<close>

lemma init_watches_nonempty:
  "init_watches idx fm w wm = Inr r \<Longrightarrow> [] \<notin> set fm"
  by (induction idx fm w wm rule: init_watches.induct) auto

lemma initialize_state_formula:
  assumes "initialize_state ops fm = Inr st"
  shows "formula st = fm" and "[] \<notin> set fm"
proof -
  from assms obtain w wm where iw: "init_watches 0 fm [] [] = Inr (w, wm)"
    by (auto simp: initialize_state_def split: sum.splits)
  from init_watches_nonempty[OF iw] show "[] \<notin> set fm" .
  from assms iw show "formula st = fm"
    by (auto simp: initialize_state_def Let_def)
qed

lemma unit_loop_formula: "unit_loop st cls = Some st' \<Longrightarrow> formula st' = formula st"
proof (induction st cls rule: unit_loop.induct)
  case (1 st)
  then show ?case by simp
next
  case (2 st clause rest)
  show ?case
  proof (cases clause)
    case Nil
    with 2 show ?thesis by simp
  next
    case (Cons lit more_lits)
    show ?thesis
    proof (cases more_lits)
      case (Cons b bs)
      with 2 \<open>clause = lit # more_lits\<close> show ?thesis by simp
    next
      case Nil
      with \<open>clause = lit # more_lits\<close> have c: "clause = [lit]" by simp
      show ?thesis
      proof (cases "map_of (assignment st) \<bar>lit\<bar>")
        case None
        with 2 c show ?thesis by simp
      next
        case (Some val)
        with 2 c show ?thesis by (simp split: if_splits)
      qed
    qed
  qed
qed

text \<open>One round of the main loop, as seen by the counters.\<close>

definition found_conflict :: "'f solver_state \<Rightarrow> cdcl_stats \<Rightarrow> bool" where
  "found_conflict st stats =
     (case propagate st stats of Inr (Some c, st1, stats1) \<Rightarrow> True | _ \<Rightarrow> False)"

lemma cdcl_decide_Return:
  assumes "cdcl_decide st stats rl csr = Return (b, st', stats')"
  shows "stats' = stats" and "formula st' = formula st"
proof -
  obtain r st1 where s: "select_branch_literal st = (r, st1)"
    by (cases "select_branch_literal st")
  from assms s have "r = None \<and> st' = st1 \<and> stats' = stats"
    by (cases r) (simp_all add: cdcl_decide_def)
  with select_branch_literal_formula[OF s] show "stats' = stats" and "formula st' = formula st"
    by simp_all
qed

lemma cdcl_decide_Continue:
  assumes "cdcl_decide st stats rl csr = Continue (st', stats', rl', csr')"
  shows "stats' = stats\<lparr>decisions := decisions stats + 1\<rparr>" and "formula st' = formula st"
proof -
  obtain r st1 where s: "select_branch_literal st = (r, st1)"
    by (cases "select_branch_literal st")
  from assms s obtain l where "r = Some l"
    "st' = assign_at_level (st1\<lparr>decision_level := decision_level st1 + 1\<rparr>) l []"
    "stats' = stats\<lparr>decisions := decisions stats + 1\<rparr>"
    by (cases r) (simp_all add: cdcl_decide_def)
  with select_branch_literal_formula[OF s]
  show "stats' = stats\<lparr>decisions := decisions stats + 1\<rparr>" and "formula st' = formula st"
    by simp_all
qed

lemma cdcl_conflict_Return:
  assumes "cdcl_conflict ops st stats rl csr c = Some (Inr (Return (b, st', stats')))"
  shows "stats' = stats\<lparr>conflicts := conflicts stats + 1\<rparr>" and "formula st' = formula st"
proof -
  have "decision_level st = 0"
  proof (rule ccontr)
    assume nz: "decision_level st \<noteq> 0"
    show False
    proof (cases "analyze_conflict st c")
      case None
      with assms nz show False by (simp add: cdcl_conflict_def Let_def)
    next
      case (Some a)
      obtain clause backjump where a: "a = (clause, backjump)" by (cases a)
      show False
      proof (cases "learn_clause ops st clause (stats\<lparr>conflicts := conflicts stats + 1\<rparr>)")
        case (Inl e)
        with assms nz Some a show False by (simp add: cdcl_conflict_def Let_def)
      next
        case (Inr p)
        obtain st1 stats2 where "p = (st1, stats2)" by (cases p)
        with assms nz Some a Inr show False
          by (simp add: cdcl_conflict_def Let_def split: if_splits)
      qed
    qed
  qed
  with assms show "stats' = stats\<lparr>conflicts := conflicts stats + 1\<rparr>" and "formula st' = formula st"
    by (simp_all add: cdcl_conflict_def Let_def)
qed

lemma cdcl_conflict_Continue:
  assumes "cdcl_conflict ops st stats rl csr c = Some (Inr (Continue (st', stats', rl', csr')))"
  shows "conflicts stats' = conflicts stats + 1"
    and "learned_clauses stats' = learned_clauses stats + 1"
    and "decisions stats' = decisions stats"
    and "\<exists>cl. cl \<noteq> [] \<and> formula st' = formula st @ [cl]"
proof -
  from assms have nz: "decision_level st \<noteq> 0"
    by (auto simp: cdcl_conflict_def Let_def)
  with assms obtain clause backjump where ac: "analyze_conflict st c = Some (clause, backjump)"
    by (cases "analyze_conflict st c") (auto simp: cdcl_conflict_def Let_def)
  with assms nz obtain st1 stats2 where
    lc: "learn_clause ops st clause (stats\<lparr>conflicts := conflicts stats + 1\<rparr>) = Inr (st1, stats2)"
    by (cases "learn_clause ops st clause (stats\<lparr>conflicts := conflicts stats + 1\<rparr>)")
       (auto simp: cdcl_conflict_def Let_def)
  note l = learn_clause_formula[OF lc]
  define st3 where "st3 = (case find (\<lambda>lit. level_get st1 \<bar>lit\<bar> (- 1) = decision_level st1) clause of
                             None \<Rightarrow> decay_scores ops (backtrack st1 backjump)
                           | Some lit \<Rightarrow> assign_at_level (decay_scores ops (backtrack st1 backjump)) lit clause)"
  have f3: "formula st3 = formula st @ [clause]"
    by (simp add: st3_def l(1) split: option.splits)
  from assms nz ac lc
  have "(st' = backtrack st3 0 \<and> stats' = stats2\<lparr>restarts := restarts stats2 + 1\<rparr>) \<or>
        (st' = st3 \<and> stats' = stats2)"
    by (simp add: cdcl_conflict_def Let_def st3_def split: if_splits)
  then have "formula st' = formula st @ [clause] \<and> conflicts stats' = conflicts stats2 \<and>
             learned_clauses stats' = learned_clauses stats2 \<and> decisions stats' = decisions stats2"
    using f3 by auto
  with l(2,3) show "conflicts stats' = conflicts stats + 1"
    and "learned_clauses stats' = learned_clauses stats + 1"
    and "decisions stats' = decisions stats"
    and "\<exists>cl. cl \<noteq> [] \<and> formula st' = formula st @ [cl]"
    by simp_all
qed

lemma cdcl_iteration_cases:
  assumes "cdcl_iteration ops st stats rl csr = Some (Inr step)"
  obtains (quiet) st1 where "propagate st stats = Inr (None, st1, stats)"
      "step = cdcl_decide st1 stats rl csr" "\<not> found_conflict st stats"
    | (empty) st1 stats1 where "propagate st stats = Inr (Some [], st1, stats1)"
    | (conflict) c st1 stats1 where "propagate st stats = Inr (Some c, st1, stats1)" "c \<noteq> []"
      "cdcl_conflict ops st1 stats1 rl csr c = Some (Inr step)" "found_conflict st stats"
      "conflicts stats1 = conflicts stats + 1" "learned_clauses stats1 = learned_clauses stats"
      "decisions stats1 = decisions stats"
proof -
  from assms obtain r st1 stats1 where p: "propagate st stats = Inr (r, st1, stats1)"
    by (cases "propagate st stats") (auto simp: cdcl_iteration_def)
  note pf = propagate_formula[OF p]
  show ?thesis
  proof (cases r)
    case None
    with p have "stats1 = stats"
      by (auto simp: propagate_def split: sum.splits option.splits)
    with assms p None show ?thesis
      by (intro quiet[of st1]) (simp_all add: cdcl_iteration_def found_conflict_def)
  next
    case (Some c)
    show ?thesis
    proof (cases "c = []")
      case True
      with p Some show ?thesis by (intro empty[of st1 stats1]) simp
    next
      case False
      with assms p Some pf(3,4,5) show ?thesis
        by (intro conflict[of c st1 stats1]) (simp_all add: cdcl_iteration_def found_conflict_def)
    qed
  qed
qed

lemma cdcl_iteration_return:
  assumes it: "cdcl_iteration ops st stats rl csr = Some (Inr (Return (b, st', stats')))"
    and ne: "[] \<notin> set (formula st)"
  shows "conflicts stats' = conflicts stats + (if found_conflict st stats then 2 else 0)"
    and "learned_clauses stats' = learned_clauses stats"
proof -
  have "conflicts stats' = conflicts stats + (if found_conflict st stats then 2 else 0) \<and>
        learned_clauses stats' = learned_clauses stats"
    using it
  proof (cases rule: cdcl_iteration_cases)
    case (quiet st1)
    from cdcl_decide_Return[OF quiet(2)[symmetric]] quiet(3) show ?thesis by simp
  next
    case (empty st1 stats1)
    from propagate_formula(2)[OF empty refl] ne show ?thesis by simp
  next
    case (conflict c st1 stats1)
    from cdcl_conflict_Return[OF conflict(3)] conflict(4,5,6) show ?thesis by simp
  qed
  then show "conflicts stats' = conflicts stats + (if found_conflict st stats then 2 else 0)"
    and "learned_clauses stats' = learned_clauses stats" by simp_all
qed

lemma cdcl_iteration_continue:
  assumes it: "cdcl_iteration ops st stats rl csr = Some (Inr (Continue (st', stats', rl', csr')))"
    and ne: "[] \<notin> set (formula st)"
  shows "conflicts stats' = conflicts stats + (if found_conflict st stats then 2 else 0)"
    and "learned_clauses stats' = learned_clauses stats + (if found_conflict st stats then 1 else 0)"
    and "[] \<notin> set (formula st')"
proof -
  have "conflicts stats' = conflicts stats + (if found_conflict st stats then 2 else 0) \<and>
        learned_clauses stats' = learned_clauses stats + (if found_conflict st stats then 1 else 0) \<and>
        [] \<notin> set (formula st')"
    using it
  proof (cases rule: cdcl_iteration_cases)
    case (quiet st1)
    from cdcl_decide_Continue[OF quiet(2)[symmetric]] quiet(3) propagate_formula(1)[OF quiet(1)] ne
    show ?thesis by simp
  next
    case (empty st1 stats1)
    from propagate_formula(2)[OF empty refl] ne show ?thesis by simp
  next
    case (conflict c st1 stats1)
    from cdcl_conflict_Continue[OF conflict(3)] conflict(4,5,6) propagate_formula(1)[OF conflict(1)] ne
    show ?thesis by auto
  qed
  then show "conflicts stats' = conflicts stats + (if found_conflict st stats then 2 else 0)"
    and "learned_clauses stats' = learned_clauses stats + (if found_conflict st stats then 1 else 0)"
    and "[] \<notin> set (formula st')" by simp_all
qed

text \<open>
  The number of rounds of the main loop in which \<open>propagate\<close> returns a conflict clause,
  added to \<open>n\<close>; the loop is the one of \<open>cdcl_loop\<close>.
\<close>

partial_function (option) count_conflicts :: "('f::linorder) float_ops \<Rightarrow> 'f solver_state \<Rightarrow> cdcl_stats \<Rightarrow> int \<Rightarrow> int \<Rightarrow> nat \<Rightarrow> nat option" where
  "count_conflicts ops st stats restart_limit conflicts_since_restart n =
     (case cdcl_iteration ops st stats restart_limit conflicts_since_restart of
        None \<Rightarrow> None
      | Some (Inl e) \<Rightarrow> Some (if found_conflict st stats then Suc n else n)
      | Some (Inr (Return r)) \<Rightarrow> Some (if found_conflict st stats then Suc n else n)
      | Some (Inr (Continue (st', stats', restart_limit', conflicts_since_restart'))) \<Rightarrow>
          count_conflicts ops st' stats' restart_limit' conflicts_since_restart'
            (if found_conflict st stats then Suc n else n))"

declare count_conflicts.simps [code]

definition main_loop_conflicts :: "('f::linorder) float_ops \<Rightarrow> formula \<Rightarrow> nat option" where
  "main_loop_conflicts ops fm =
     (case initialize_state ops fm of
        Inl e \<Rightarrow> None
      | Inr st0 \<Rightarrow>
          (case unit_loop st0 (formula st0) of
             None \<Rightarrow> Some 0
           | Some st1 \<Rightarrow>
               (case propagate st1 zero_stats of
                  Inl e \<Rightarrow> None
                | Inr (Some c, st2, stats2) \<Rightarrow> Some 0
                | Inr (None, st2, stats2) \<Rightarrow> count_conflicts ops st2 stats2 100 0 0)))"

lemma count_conflicts_Return:
  assumes "cdcl_iteration ops st stats rl csr = Some (Inr (Return r))"
  shows "count_conflicts ops st stats rl csr n = Some (if found_conflict st stats then Suc n else n)"
  by (subst count_conflicts.simps) (simp only: assms option.case sum.case loop_step.case)

lemma count_conflicts_Continue:
  assumes "cdcl_iteration ops st stats rl csr = Some (Inr (Continue (st', stats', rl', csr')))"
  shows "count_conflicts ops st stats rl csr n =
           count_conflicts ops st' stats' rl' csr' (if found_conflict st stats then Suc n else n)"
  by (subst count_conflicts.simps) (simp only: assms option.case sum.case loop_step.case prod.case)

definition counters_ok :: "('f::linorder) float_ops \<Rightarrow> 'f solver_state \<Rightarrow> cdcl_stats \<Rightarrow> int \<Rightarrow> int \<Rightarrow>
    py_error + (bool \<times> 'f solver_state \<times> cdcl_stats) \<Rightarrow> bool" where
  "counters_ok ops st stats rl csr y =
     ([] \<notin> set (formula st) \<longrightarrow>
         (\<forall>sat st' stats' n. y = Inr (sat, st', stats') \<longrightarrow>
            (\<exists>m. count_conflicts ops st stats rl csr n = Some m \<and>
                 conflicts stats' + 2 * int n = conflicts stats + 2 * int m) \<and>
            (2 * learned_clauses stats' - conflicts stats' \<le> 2 * learned_clauses stats - conflicts stats \<and>
             learned_clauses stats \<le> learned_clauses stats')))"

lemma cdcl_loop_counters:
  assumes "cdcl_loop ops st stats rl csr = Some y"
  shows "counters_ok ops st stats rl csr y"
proof (rule cdcl_loop.raw_induct[where P = counters_ok, OF _ assms])
  fix loop :: "'a float_ops \<Rightarrow> 'a solver_state \<Rightarrow> cdcl_stats \<Rightarrow> int \<Rightarrow> int \<Rightarrow>
    (py_error + (bool \<times> 'a solver_state \<times> cdcl_stats)) option"
  fix ops st stats rl csr y
  assume IH: "\<And>ops st stats rl csr y. loop ops st stats rl csr = Some y \<Longrightarrow> counters_ok ops st stats rl csr y"
  assume step: "(case cdcl_iteration ops st stats rl csr of
      None \<Rightarrow> None | Some (Inl e) \<Rightarrow> Some (Inl e)
      | Some (Inr (Return r)) \<Rightarrow> Some (Inr r)
      | Some (Inr (Continue (st', stats', restart_limit', conflicts_since_restart'))) \<Rightarrow>
          loop ops st' stats' restart_limit' conflicts_since_restart') = Some y"
  show "counters_ok ops st stats rl csr y"
    unfolding counters_ok_def
  proof (intro impI allI)
    fix sat st' stats' n
    assume ne: "[] \<notin> set (formula st)" and y: "y = Inr (sat, st', stats')"
    let ?n' = "if found_conflict st stats then Suc n else n"
    show "(\<exists>m. count_conflicts ops st stats rl csr n = Some m \<and>
                 conflicts stats' + 2 * int n = conflicts stats + 2 * int m) \<and>
            (2 * learned_clauses stats' - conflicts stats' \<le> 2 * learned_clauses stats - conflicts stats \<and>
             learned_clauses stats \<le> learned_clauses stats')"
    proof (cases "cdcl_iteration ops st stats rl csr")
      case None
      with step show ?thesis by (simp only: option.case) simp
    next
      case (Some r)
      show ?thesis
      proof (cases r)
        case (Inl e)
        with step Some y show ?thesis by (simp only: option.case sum.case) simp
      next
        case (Inr step)
        show ?thesis
        proof (cases step)
          case (Return res)
          with step Some Inr y have res: "res = (sat, st', stats')"
            by (simp only: option.case sum.case loop_step.case) simp
          from Some Inr Return res
          have i: "cdcl_iteration ops st stats rl csr = Some (Inr (Return (sat, st', stats')))"
            by simp
          note r = cdcl_iteration_return[OF i ne]
          have "count_conflicts ops st stats rl csr n = Some ?n'"
            by (rule count_conflicts_Return[OF i])
          moreover have "conflicts stats' + 2 * int n = conflicts stats + 2 * int ?n'"
            using r(1) by (cases "found_conflict st stats") simp_all
          moreover have "2 * learned_clauses stats' - conflicts stats' \<le> 2 * learned_clauses stats - conflicts stats \<and>
             learned_clauses stats \<le> learned_clauses stats'"
            using r by (cases "found_conflict st stats") simp_all
          ultimately show ?thesis by blast
        next
          case (Continue nxt)
          obtain st1 stats1 rl1 csr1 where nxt: "nxt = (st1, stats1, rl1, csr1)"
            by (cases nxt)
          from Some Inr Continue nxt
          have i: "cdcl_iteration ops st stats rl csr = Some (Inr (Continue (st1, stats1, rl1, csr1)))"
            by simp
          from step y have l: "loop ops st1 stats1 rl1 csr1 = Some (Inr (sat, st', stats'))"
            unfolding i by (simp only: option.case sum.case loop_step.case prod.case)
          note c = cdcl_iteration_continue[OF i ne]
          from IH[OF l, unfolded counters_ok_def] c(3)
          obtain m where m: "count_conflicts ops st1 stats1 rl1 csr1 ?n' = Some m"
            "conflicts stats' + 2 * int ?n' = conflicts stats1 + 2 * int m"
            and le: "2 * learned_clauses stats' - conflicts stats' \<le> 2 * learned_clauses stats1 - conflicts stats1"
              "learned_clauses stats1 \<le> learned_clauses stats'"
            by blast
          have "count_conflicts ops st stats rl csr n = Some m"
            using count_conflicts_Continue[OF i, of n] m(1) by simp
          moreover have "conflicts stats' + 2 * int n = conflicts stats + 2 * int m"
            using m(2) c(1) by (cases "found_conflict st stats") simp_all
          moreover have "2 * learned_clauses stats' - conflicts stats' \<le> 2 * learned_clauses stats - conflicts stats \<and>
             learned_clauses stats \<le> learned_clauses stats'"
            using le c(1,2) by (cases "found_conflict st stats") simp_all
          ultimately show ?thesis by blast
        qed
      qed
    qed
  qed
qed

text \<open>What \<open>cdcl_solve\<close> returns, when it returns a record.\<close>

lemma propagate_quiet_stats:
  "propagate st stats = Inr (None, st', stats') \<Longrightarrow> stats' = stats"
  by (auto simp: propagate_def split: sum.splits option.splits)

lemma cdcl_solve_cases:
  fixes ops :: "('f::linorder) float_ops"
  assumes "cdcl_solve ops fm = Some (Inr res)"
  obtains (early) st :: "'f solver_state" where "res = cdcl_result False zero_stats [] st"
      "main_loop_conflicts ops fm = Some 0"
    | (search) st0 st1 st2 sat st3 stats3 where
      "initialize_state ops fm = Inr st0" "unit_loop st0 (formula st0) = Some st1"
      "propagate st1 zero_stats = Inr (None, st2, zero_stats)"
      "cdcl ops st2 zero_stats = Some (Inr (sat, st3, stats3))"
      "res = cdcl_result sat stats3 (if sat then assignment st3 else []) st3"
      "main_loop_conflicts ops fm = count_conflicts ops st2 zero_stats 100 0 0"
proof (cases "initialize_state ops fm")
  case (Inl e)
  with assms show ?thesis by (simp add: cdcl_solve_def)
next
  case i: (Inr st0)
  show ?thesis
  proof (cases "unit_loop st0 (formula st0)")
    case None
    with assms i have "res = cdcl_result False zero_stats [] st0"
      by (simp add: cdcl_solve_def)
    moreover from i None have "main_loop_conflicts ops fm = Some 0"
      by (simp add: main_loop_conflicts_def)
    ultimately show ?thesis by (rule early)
  next
    case u: (Some st1)
    show ?thesis
    proof (cases "propagate st1 zero_stats")
      case (Inl e)
      with assms i u show ?thesis by (simp add: cdcl_solve_def)
    next
      case (Inr p)
      obtain r st2 stats2 where p: "p = (r, st2, stats2)" by (cases p)
      show ?thesis
      proof (cases r)
        case (Some c)
        with assms i u Inr p have "res = cdcl_result False zero_stats [] st2"
          by (simp add: cdcl_solve_def)
        moreover from i u Inr p Some have "main_loop_conflicts ops fm = Some 0"
          by (simp add: main_loop_conflicts_def)
        ultimately show ?thesis by (rule early)
      next
        case None
        with Inr p have pq: "propagate st1 zero_stats = Inr (None, st2, stats2)" by simp
        from propagate_quiet_stats[OF pq] have s2: "stats2 = zero_stats" .
        show ?thesis
        proof (cases "cdcl ops st2 zero_stats")
          case n: None
          with assms i u pq s2 show ?thesis by (simp add: cdcl_solve_def)
        next
          case (Some y)
          show ?thesis
          proof (cases y)
            case (Inl e)
            with assms i u pq s2 Some show ?thesis by (simp add: cdcl_solve_def)
          next
            case yr: (Inr q)
            obtain sat st3 stats3 where q: "q = (sat, st3, stats3)" by (cases q)
            from assms i u pq s2 Some yr q
            have r: "res = cdcl_result sat stats3 (if sat then assignment st3 else []) st3"
              by (simp add: cdcl_solve_def)
            from i u pq s2
            have m: "main_loop_conflicts ops fm = count_conflicts ops st2 zero_stats 100 0 0"
              by (simp add: main_loop_conflicts_def)
            from Some yr q have c: "cdcl ops st2 zero_stats = Some (Inr (sat, st3, stats3))"
              by simp
            from pq s2 have pq': "propagate st1 zero_stats = Inr (None, st2, zero_stats)" by simp
            from i u pq' c r m show ?thesis by (rule search)
          qed
        qed
      qed
    qed
  qed
qed

lemma cdcl_result_fields:
  "map_of (cdcl_result sat stats asg st) ''conflicts'' = Some (PInt (conflicts stats))"
  "map_of (cdcl_result sat stats asg st) ''learned_clauses'' = Some (PInt (learned_clauses stats))"
  "map_of (cdcl_result sat stats asg st) ''decisions'' = Some (PInt (decisions stats))"
  "map_of (cdcl_result sat stats asg st) ''restarts'' = Some (PInt (restarts stats))"
  "map_of (cdcl_result sat stats asg st) ''status'' = Some (PStr (if sat then ''SAT'' else ''UNSAT''))"
  "map_of (cdcl_result sat stats asg st) ''assignment'' = Some (PAssignment asg)"
  by (simp_all add: cdcl_result_def)

lemma cdcl_solve_counters:
  assumes "cdcl_solve ops fm = Some (Inr res)"
  shows "\<exists>n c l. main_loop_conflicts ops fm = Some n \<and>
           map_of res ''conflicts'' = Some (PInt c) \<and>
           map_of res ''learned_clauses'' = Some (PInt l) \<and>
           c = 2 * int n \<and> 2 * l \<le> c \<and> 0 \<le> l"
  using assms
proof (cases rule: cdcl_solve_cases)
  case (early st)
  then show ?thesis by (simp add: cdcl_result_fields zero_stats_def)
next
  case (search st0 st1 st2 sat st3 stats3)
  from initialize_state_formula[OF search(1)] unit_loop_formula[OF search(2)]
    propagate_formula(1)[OF search(3)]
  have ne: "[] \<notin> set (formula st2)" by simp
  from search(4) have "cdcl_loop ops st2 zero_stats 100 0 = Some (Inr (sat, st3, stats3))"
    by (simp add: cdcl_def)
  from cdcl_loop_counters[OF this, unfolded counters_ok_def] ne
  obtain m where "count_conflicts ops st2 zero_stats 100 0 0 = Some m"
    "conflicts stats3 + 2 * int 0 = conflicts zero_stats + 2 * int m"
    "2 * learned_clauses stats3 - conflicts stats3 \<le> 2 * learned_clauses zero_stats - conflicts zero_stats"
    "learned_clauses zero_stats \<le> learned_clauses stats3"
    by blast
  with search(5,6) show ?thesis by (simp add: cdcl_result_fields zero_stats_def)
qed

text \<open>
  C10. In the main loop of \<open>cdcl\<close> a conflict found by \<open>propagate\<close> is counted once in
  \<open>propagate\<close> and once more in the loop, so the \<open>conflicts\<close> of the record returned is
  twice the number of rounds of the main loop in which \<open>propagate\<close> returned a conflict
  clause. (A conflict found before the main loop is reported as no conflict at all.)
\<close>

theorem C10_conflicts_counted_twice:
  assumes "cdcl_solve ops fm = Some (Inr res)"
  shows "\<exists>n. main_loop_conflicts ops fm = Some n \<and>
             map_of res ''conflicts'' = Some (PInt (2 * int n))"
  using cdcl_solve_counters[OF assms] by auto

theorem C10_conflicts_counted_twice_witness:
  "main_loop_conflicts exact_ops [[1, 2], [- 1, - 2], [1, - 2], [- 1, 2]] = Some 2 \<and>
   (\<exists>n. main_loop_conflicts exact_ops [[1, 2], [- 1, - 2], [1, - 2], [- 1, 2]] = Some n \<and>
        map_of [(''solver'', PStr ''cdcl''), (''status'', PStr ''UNSAT''),
                (''decisions'', PInt 1), (''conflicts'', PInt 4),
                (''learned_clauses'', PInt 1), (''restarts'', PInt 0),
                (''assignment'', PAssignment []), (''num_clauses'', PInt 5)] ''conflicts''
          = Some (PInt (2 * int n)))"
proof -
  have r: "cdcl_solve exact_ops [[1, 2], [- 1, - 2], [1, - 2], [- 1, 2]] =
     Some (Inr [(''solver'', PStr ''cdcl''), (''status'', PStr ''UNSAT''),
                (''decisions'', PInt 1), (''conflicts'', PInt 4),
                (''learned_clauses'', PInt 1), (''restarts'', PInt 0),
                (''assignment'', PAssignment []), (''num_clauses'', PInt 5)])"
    by code_simp
  have m: "main_loop_conflicts exact_ops [[1, 2], [- 1, - 2], [1, - 2], [- 1, 2]] = Some 2"
    by code_simp
  from C10_conflicts_counted_twice[OF r] m show ?thesis by (intro conjI)
qed

text \<open>
  C2. The counters of a CDCL run satisfy \<open>learned_clauses \<le> conflicts\<close> and
  \<open>decisions \<le> num_vars * (restarts + 1) + conflicts\<close>. The second bound fails: after a
  conflict the search jumps back and decides again variables it had decided before, with
  no restart. Four clauses over five variables give 8 decisions, 2 conflicts, no restart.
\<close>

theorem C2_decisions_exceed_bound:
  "parse_dimacs ''p cnf 5 4\<newline>1 2 3 0\<newline>3 1 2 0\<newline>-4 5 0\<newline>-4 -5 0\<newline>'' =
     Inr \<lparr>num_vars = 5, num_clauses = 4,
          clauses = [[1, 2, 3], [3, 1, 2], [- 4, 5], [- 4, - 5]]\<rparr> \<and>
   cdcl_run_solver exact_ops ''p cnf 5 4\<newline>1 2 3 0\<newline>3 1 2 0\<newline>-4 5 0\<newline>-4 -5 0\<newline>'' =
     Some (Inr [(''solver'', PStr ''cdcl''), (''status'', PStr ''SAT''),
                (''decisions'', PInt 8), (''conflicts'', PInt 2),
                (''learned_clauses'', PInt 1), (''restarts'', PInt 0),
                (''assignment'', PAssignment [(4, False), (1, True), (2, True), (3, True), (5, True)]),
                (''num_clauses'', PInt 5)]) \<and>
   \<not> (8 :: int) \<le> 5 * (0 + 1) + 2"
proof -
  have p: "parse_dimacs ''p cnf 5 4\<newline>1 2 3 0\<newline>3 1 2 0\<newline>-4 5 0\<newline>-4 -5 0\<newline>'' =
     Inr \<lparr>num_vars = 5, num_clauses = 4,
          clauses = [[1, 2, 3], [3, 1, 2], [- 4, 5], [- 4, - 5]]\<rparr>"
    by code_simp
  have s: "cdcl_solve exact_ops [[1, 2, 3], [3, 1, 2], [- 4, 5], [- 4, - 5]] =
     Some (Inr [(''solver'', PStr ''cdcl''), (''status'', PStr ''SAT''),
                (''decisions'', PInt 8), (''conflicts'', PInt 2),
                (''learned_clauses'', PInt 1), (''restarts'', PInt 0),
                (''assignment'', PAssignment [(4, False), (1, True), (2, True), (3, True), (5, True)]),
                (''num_clauses'', PInt 5)])"
    by code_simp
  show ?thesis
    unfolding cdcl_run_solver_def p using s by simp
qed

text \<open>
  C2, as the code has it: in the record of every CDCL run that returns one,
  \<open>learned_clauses \<le> conflicts\<close>, and indeed \<open>2 * learned_clauses \<le> conflicts\<close>, since
  every learned clause follows a conflict of the main loop, which is counted twice.
\<close>

theorem C2_learned_at_most_conflicts:
  assumes "cdcl_solve ops fm = Some (Inr res)"
  shows "\<exists>c l. map_of res ''conflicts'' = Some (PInt c) \<and>
               map_of res ''learned_clauses'' = Some (PInt l) \<and>
               0 \<le> l \<and> l \<le> c \<and> 2 * l \<le> c"
proof -
  from cdcl_solve_counters[OF assms] obtain c l where
    "map_of res ''conflicts'' = Some (PInt c)" "map_of res ''learned_clauses'' = Some (PInt l)"
    "2 * l \<le> c" "0 \<le> l" by blast
  moreover from this have "l \<le> c" by simp
  ultimately show ?thesis by blast
qed

theorem C2_learned_at_most_conflicts_witness:
  "\<exists>c l. map_of [(''solver'', PStr ''cdcl''), (''status'', PStr ''SAT''),
                (''decisions'', PInt 8), (''conflicts'', PInt 2),
                (''learned_clauses'', PInt 1), (''restarts'', PInt 0),
                (''assignment'', PAssignment [(4, False), (1, True), (2, True), (3, True), (5, True)]),
                (''num_clauses'', PInt 5)] ''conflicts'' = Some (PInt c) \<and>
         map_of [(''solver'', PStr ''cdcl''), (''status'', PStr ''SAT''),
                (''decisions'', PInt 8), (''conflicts'', PInt 2),
                (''learned_clauses'', PInt 1), (''restarts'', PInt 0),
                (''assignment'', PAssignment [(4, False), (1, True), (2, True), (3, True), (5, True)]),
                (''num_clauses'', PInt 5)] ''learned_clauses'' = Some (PInt l) \<and>
         0 \<le> l \<and> l \<le> c \<and> 2 * l \<le> c"
proof -
  have s: "cdcl_solve exact_ops [[1, 2, 3], [3, 1, 2], [- 4, 5], [- 4, - 5]] =
     Some (Inr [(''solver'', PStr ''cdcl''), (''status'', PStr ''SAT''),
                (''decisions'', PInt 8), (''conflicts'', PInt 2),
                (''learned_clauses'', PInt 1), (''restarts'', PInt 0),
                (''assignment'', PAssignment [(4, False), (1, True), (2, True), (3, True), (5, True)]),
                (''num_clauses'', PInt 5)])"
    by code_simp
  from C2_learned_at_most_conflicts[OF s] show ?thesis .
qed

end
